theory Spec2Isabelle
  imports Main "HOL-Library.Word"
begin

unbundle bit_operations_syntax

section \<open>Data model\<close>

text \<open>
  Go's \<open>byte\<close> is an 8-bit word, \<open>uint16\<close> a 16-bit word.  A \<open>rune\<close> is an \<open>int32\<close>;
  the library functions used here compare it after the conversion \<open>uint32(r)\<close>, so it is
  modelled as a 32-bit word with the unsigned order.  Every shift below is applied to a
  rune that is non-negative, where the arithmetic shift of \<open>int32\<close> and \<open>drop_bit\<close> agree.

  A Go \<open>string\<close> is an immutable byte sequence.  The label strings (the result of
  \<open>decodeLabel\<close> and the \<open>label\<close> argument it is compared with) are modelled as byte
  lists; device paths, file-system names and the text of \<open>/proc/filesystems\<close> are
  modelled as \<open>string\<close> (a list of 8-bit characters).
\<close>

type_synonym byte = "8 word"
type_synonym uint16 = "16 word"
type_synonym rune = "32 word"
type_synonym gostring = "byte list"

text \<open>Causes reported by the operating system or by the external GPT parser.\<close>

datatype ioerr = IOErr nat

text \<open>
  The errors built with \<open>fmt.Errorf\<close> in \<open>partitions.go\<close>, one constructor per format
  string, and the run-time panic of an out-of-range index.
\<close>

datatype error =
    ErrReadFile ioerr
  | ErrFilesystemUnknown string
  | ErrGetBlockDevs error
  | ErrNoBlockDevices
  | ErrFailedToGetDevice gostring error
  | ErrMount string ioerr
  | ErrWalk string ioerr
  | ErrCannotFindPartition string string "string list"
  | ErrNoDeviceLabeled gostring
  | ErrOddLabel
  | PanicIndexOutOfRange

section \<open>Library functions: \<open>unicode/utf16\<close>, \<open>unicode/utf8\<close>, \<open>strings\<close>, \<open>strconv\<close>\<close>

definition surr1 :: rune where "surr1 = 0xd800"
definition surr2 :: rune where "surr2 = 0xdc00"
definition surr3 :: rune where "surr3 = 0xe000"
definition surrSelf :: rune where "surrSelf = 0x10000"
definition RuneError :: rune where "RuneError = 0xFFFD"
definition MaxRune :: rune where "MaxRune = 0x10FFFF"

text \<open>
  \<open>utf16.DecodeRune(r1, r2)\<close>: the code point of a surrogate pair, \<open>U+FFFD\<close> when the
  two values are not a high surrogate followed by a low one.
\<close>

definition utf16_DecodeRune :: "rune \<Rightarrow> rune \<Rightarrow> rune" where
  "utf16_DecodeRune r1 r2 =
     (if surr1 \<le> r1 \<and> r1 < surr2 \<and> surr2 \<le> r2 \<and> r2 < surr3
      then (push_bit 10 (r1 - surr1) OR (r2 - surr2)) + surrSelf
      else RuneError)"

text \<open>
  \<open>utf16.Decode(s)\<close>: a unit outside the surrogate range is its own code point; a high
  surrogate followed, inside \<open>s\<close>, by a low surrogate is decoded as a pair and both units
  are consumed; any other surrogate becomes \<open>U+FFFD\<close>.
\<close>

fun utf16_Decode :: "uint16 list \<Rightarrow> rune list" where
  "utf16_Decode [] = []"
| "utf16_Decode [r] =
     (if ucast r < surr1 \<or> surr3 \<le> ucast r then [ucast r] else [RuneError])"
| "utf16_Decode (r # r2 # s) =
     (if ucast r < surr1 \<or> surr3 \<le> ucast r then ucast r # utf16_Decode (r2 # s)
      else if surr1 \<le> ucast r \<and> ucast r < surr2 \<and> surr2 \<le> ucast r2 \<and> ucast r2 < surr3
      then utf16_DecodeRune (ucast r) (ucast r2) # utf16_Decode s
      else RuneError # utf16_Decode (r2 # s))"

text \<open>
  \<open>utf8.EncodeRune(p, r)\<close>: the bytes \<open>p[:n]\<close> it writes.  The \<open>switch\<close> has five cases
  in this order; the third replaces \<open>r\<close> by \<open>U+FFFD\<close> and falls through to the
  three-byte body.
\<close>

definition enc3 :: "rune \<Rightarrow> byte list" where
  "enc3 r = [0xE0 OR ucast (drop_bit 12 r),
             0x80 OR (ucast (drop_bit 6 r) AND 0x3F),
             0x80 OR (ucast r AND 0x3F)]"

definition utf8_EncodeRune :: "rune \<Rightarrow> byte list" where
  "utf8_EncodeRune r =
     (if r \<le> 0x7F then [ucast r]
      else if r \<le> 0x7FF then
        [0xC0 OR ucast (drop_bit 6 r), 0x80 OR (ucast r AND 0x3F)]
      else if MaxRune < r \<or> (0xD800 \<le> r \<and> r \<le> 0xDFFF) then enc3 RuneError
      else if r \<le> 0xFFFF then enc3 r
      else [0xF0 OR ucast (drop_bit 18 r),
            0x80 OR (ucast (drop_bit 12 r) AND 0x3F),
            0x80 OR (ucast (drop_bit 6 r) AND 0x3F),
            0x80 OR (ucast r AND 0x3F)])"

text \<open>
  \<open>strings.Trim(s, cutset)\<close> for a cutset of one ASCII character \<open>c\<close>: the bytes equal
  to \<open>c\<close> are removed from both ends.  (A byte below \<open>0x80\<close> is never part of the
  encoding of another character, so removing bytes and removing characters agree.)
\<close>

definition strings_Trim :: "gostring \<Rightarrow> byte \<Rightarrow> gostring" where
  "strings_Trim s c = rev (dropWhile (\<lambda>x. x = c) (rev (dropWhile (\<lambda>x. x = c) s)))"

text \<open>
  \<open>strings.HasPrefix\<close>, \<open>strings.TrimPrefix\<close> and \<open>strings.Contains\<close>, as the Go
  library defines them: \<open>HasPrefix(s, prefix)\<close> is
  \<open>len(s) >= len(prefix) && s[0:len(prefix)] == prefix\<close>, \<open>TrimPrefix\<close> removes the prefix
  when it is one, and \<open>Contains(s, substr)\<close> holds when \<open>substr\<close> occurs at some position
  of \<open>s\<close>.
\<close>

definition strings_HasPrefix :: "string \<Rightarrow> string \<Rightarrow> bool" where
  "strings_HasPrefix s prefix =
     (length prefix \<le> length s \<and> take (length prefix) s = prefix)"

definition strings_TrimPrefix :: "string \<Rightarrow> string \<Rightarrow> string" where
  "strings_TrimPrefix s prefix =
     (if strings_HasPrefix s prefix then drop (length prefix) s else s)"

fun strings_Contains :: "string \<Rightarrow> string \<Rightarrow> bool" where
  "strings_Contains [] substr = (substr = [])"
| "strings_Contains (c # s) substr =
     (strings_HasPrefix (c # s) substr \<or> strings_Contains s substr)"

text \<open>
  \<open>strconv.Itoa\<close> on a non-negative argument: the decimal digits, most significant
  first.  The argument is \<open>n + 1\<close> for a slice index \<open>n\<close>, so it is positive and far from
  the range of \<open>int\<close>; it is modelled as a natural number.
\<close>

definition digit_char :: "nat \<Rightarrow> char" where
  "digit_char k = char_of (48 + k)"

function Itoa :: "nat \<Rightarrow> string" where
  "Itoa n = (if n < 10 then [digit_char n] else Itoa (n div 10) @ [digit_char (n mod 10)])"
  by pat_completeness auto
termination
  by (relation "measure id") auto

declare Itoa.simps [simp del]

section \<open>The label codec: \<open>decodeLabel\<close>\<close>

text \<open>
  The loop \<open>for i := 0; i < lb; i += 2\<close> of \<open>decodeLabel\<close>, with the buffer \<open>ret\<close> as
  accumulator.  Each round builds one 16-bit unit from \<open>b[i]\<close> and \<open>b[i+1]\<close>, passes the
  one-element slice \<open>u16s\<close> to \<open>utf16.Decode\<close>, and appends the UTF-8 encoding of \<open>r[0]\<close>.
  The read \<open>b[i+1]\<close> panics when \<open>i + 1\<close> is out of range.
\<close>

function decodeLabel_loop :: "byte list \<Rightarrow> nat \<Rightarrow> byte list \<Rightarrow> error + byte list" where
  "decodeLabel_loop b i ret =
     (if i < length b then
        (if i + 1 < length b then
           (let u16s = [ucast (b ! i) + push_bit 8 (ucast (b ! (i + 1)))] in
            case utf16_Decode u16s of
              [] \<Rightarrow> Inl PanicIndexOutOfRange
            | r0 # _ \<Rightarrow> decodeLabel_loop b (i + 2) (ret @ utf8_EncodeRune r0))
         else Inl PanicIndexOutOfRange)
      else Inr ret)"
  by pat_completeness auto
termination
  by (relation "measure (\<lambda>(b, i, ret). length b - i)") auto

declare decodeLabel_loop.simps [simp del]

definition decodeLabel :: "byte list \<Rightarrow> error + gostring" where
  "decodeLabel b =
     (if length b mod 2 \<noteq> 0 then Inl ErrOddLabel
      else case decodeLabel_loop b 0 [] of
             Inl e \<Rightarrow> Inl e
           | Inr ret \<Rightarrow> Inr (strings_Trim ret 0))"

text \<open>
  Two notions used to state what the loop computes: the little-endian 16-bit units of a
  byte sequence, and the bytes one round of the loop appends for a unit.
\<close>

fun code_units :: "byte list \<Rightarrow> uint16 list" where
  "code_units (b0 # b1 # rest) = (ucast b0 + push_bit 8 (ucast b1)) # code_units rest"
| "code_units _ = []"

definition unit_utf8 :: "uint16 \<Rightarrow> byte list" where
  "unit_utf8 u =
     utf8_EncodeRune (if ucast u < surr1 \<or> surr3 \<le> ucast u then ucast u else RuneError)"

section \<open>The environment\<close>

text \<open>
  A GPT partition entry as \<open>deviceByPartLabel\<close> reads it: the result of the method
  \<open>IsEmpty()\<close> and the name field \<open>PartNameUTF16\<close> (an array of 72 bytes in the parser's
  type; a byte list here, so that the codec's error branch stays visible).
\<close>

record partition =
  IsEmpty :: bool
  PartNameUTF16 :: "byte list"

text \<open>
  Everything the code reads from outside: the result of reading \<open>/proc/filesystems\<close>;
  for the \<open>k\<close>-th walk of \<open>/sys/class/block\<close> the sequence of visits (the path relative
  to the root, \<open>''.''\<close> for the root itself, and the error handed to the callback, if
  any); for each device path the results of \<open>os.Open\<close>, \<open>Seek\<close> and \<open>gpt.ReadTable\<close>
  (\<open>None\<close> is success); and the result of \<open>mount.Mount\<close> for a device, mount point and
  file-system type (on success the mounted device and path).
\<close>

record world =
  proc_filesystems :: "ioerr + string"
  sys_class_block :: "nat \<Rightarrow> (string \<times> ioerr option) list"
  os_Open :: "string \<Rightarrow> ioerr option"
  fd_Seek :: "string \<Rightarrow> ioerr option"
  gpt_ReadTable :: "string \<Rightarrow> ioerr + partition list"
  mount_Mount :: "string \<Rightarrow> string \<Rightarrow> string \<Rightarrow> ioerr + string \<times> string"

text \<open>
  The effects, in the order the code performs them: the calls of \<open>debug\<close> and \<open>info\<close>
  (one constructor per call site), file reads, enumerations, sleeps, successful opens,
  closes and mounts.
\<close>

datatype event =
    Debug_Search gostring
  | ReadFile_proc_filesystems
  | Call_getBlockDevs
  | Debug_Waiting nat
  | Sleep_Second
  | Open_ok string
  | Close_fd string
  | Debug_SkipDevice string ioerr
  | Debug_SkipEmpty string
  | Debug_SkipPartition string nat error
  | Info_Found string string
  | Debug_NoMatch string nat gostring
  | Call_Mount string string string
  | Debug_Mounted string string

section \<open>The device enumerator: \<open>getBlockDevs\<close>\<close>

text \<open>
  The callback of \<open>filepath.Walk\<close>, applied to the visits in order.  An error handed to
  the callback is returned, which stops the walk; the root and every path containing
  \<open>loop\<close> are left out; any other path is appended as \<open>/dev/rel\<close>.  (\<open>filepath.Rel\<close>
  cannot fail on a path below the root, and \<open>filepath.Join\<close> of \<open>/dev\<close> and a clean
  relative path is the concatenation with a separator.)
\<close>

fun walk_loop :: "(string \<times> ioerr option) list \<Rightarrow> string list \<Rightarrow> ioerr + string list" where
  "walk_loop [] devnames = Inr devnames"
| "walk_loop ((rel, err) # rest) devnames =
     (case err of
        Some e \<Rightarrow> Inl e
      | None \<Rightarrow>
          if rel = ''.'' then walk_loop rest devnames
          else if strings_Contains rel ''loop'' then walk_loop rest devnames
          else walk_loop rest (devnames @ [''/dev/'' @ rel]))"

definition getBlockDevs :: "world \<Rightarrow> nat \<Rightarrow> error + string list" where
  "getBlockDevs w k =
     (case walk_loop (sys_class_block w k) [] of
        Inl e \<Rightarrow> Inl (ErrWalk ''/sys/class/block'' e)
      | Inr devnames \<Rightarrow> Inr devnames)"

section \<open>The partition locator and path resolver: \<open>deviceByPartLabel\<close>\<close>

text \<open>
  The variables of \<open>deviceByPartLabel\<close> that outlive one round of its first loop: the
  strings \<open>d\<close> and \<open>p\<close>, the calls deferred by \<open>defer fd.Close()\<close> (latest first; they
  run when the function returns), and the effects so far.
\<close>

record scan_state =
  var_d :: string
  var_p :: string
  deferred :: "string list"
  trace :: "event list"

definition emit :: "event \<Rightarrow> scan_state \<Rightarrow> scan_state" where
  "emit e st = st\<lparr>trace := trace st @ [e]\<rparr>"

text \<open>
  The inner loop \<open>for n, part := range table.Partitions\<close>, from index \<open>n\<close> on.  The
  \<open>break\<close> ends the recursion; each \<open>continue\<close> and the end of the body go on with the
  next entry.
\<close>

fun partitions_loop ::
  "gostring \<Rightarrow> string \<Rightarrow> nat \<Rightarrow> partition list \<Rightarrow> scan_state \<Rightarrow> scan_state" where
  "partitions_loop label device n [] st = st"
| "partitions_loop label device n (part # rest) st =
     (if IsEmpty part then
        partitions_loop label device (n + 1) rest (emit (Debug_SkipEmpty device) st)
      else
        case decodeLabel (PartNameUTF16 part) of
          Inl err \<Rightarrow>
            partitions_loop label device (n + 1) rest
              (emit (Debug_SkipPartition device (n + 1) err) st)
        | Inr l \<Rightarrow>
            if l = label then
              emit (Info_Found device (Itoa (n + 1)))
                (st\<lparr>var_d := device, var_p := Itoa (n + 1)\<rparr>)
            else
              partitions_loop label device (n + 1) rest
                (emit (Debug_NoMatch device (n + 1) label) st))"

text \<open>
  The outer loop \<open>for _, device := range devices\<close>.  A successful \<open>os.Open\<close> is followed
  by \<open>defer fd.Close()\<close>, which only records the call.
\<close>

fun devices_loop :: "world \<Rightarrow> gostring \<Rightarrow> string list \<Rightarrow> scan_state \<Rightarrow> scan_state" where
  "devices_loop w label [] st = st"
| "devices_loop w label (device # rest) st =
     (case os_Open w device of
        Some err \<Rightarrow> devices_loop w label rest (emit (Debug_SkipDevice device err) st)
      | None \<Rightarrow>
          (let st1 = (emit (Open_ok device) st)\<lparr>deferred := device # deferred st\<rparr> in
           case fd_Seek w device of
             Some err \<Rightarrow> devices_loop w label rest (emit (Debug_SkipDevice device err) st1)
           | None \<Rightarrow>
               (case gpt_ReadTable w device of
                  Inl err \<Rightarrow>
                    devices_loop w label rest (emit (Debug_SkipDevice device err) st1)
                | Inr table \<Rightarrow>
                    (let st2 = partitions_loop label device 0 table st1 in
                     if var_d st2 \<noteq> [] \<and> var_p st2 \<noteq> [] then st2
                     else devices_loop w label rest st2))))"

text \<open>The second loop of \<open>deviceByPartLabel\<close>; \<open>None\<close> when it ends without returning.\<close>

fun resolve_loop :: "string \<Rightarrow> string \<Rightarrow> string list \<Rightarrow> string option" where
  "resolve_loop d p [] = None"
| "resolve_loop d p (device # rest) =
     (if \<not> strings_HasPrefix device d then resolve_loop d p rest
      else
        (let part = strings_TrimPrefix device d in
         if strings_Contains part p then Some device else resolve_loop d p rest))"

definition init_state :: scan_state where
  "init_state = \<lparr>var_d = [], var_p = [], deferred = [], trace = []\<rparr>"

text \<open>
  \<open>deviceByPartLabel\<close>: its result and its effects, the deferred closes last, in the
  reverse order of their \<open>defer\<close> statements.
\<close>

definition deviceByPartLabel ::
  "world \<Rightarrow> string list \<Rightarrow> gostring \<Rightarrow> (error + string) \<times> event list" where
  "deviceByPartLabel w devices label =
     (let st = devices_loop w label devices init_state;
          result =
            (if var_d st \<noteq> [] \<and> var_p st \<noteq> [] then
               (case resolve_loop (var_d st) (var_p st) devices of
                  Some device \<Rightarrow> Inr device
                | None \<Rightarrow> Inl (ErrCannotFindPartition (var_p st) (var_d st) devices))
             else Inl (ErrNoDeviceLabeled label))
      in (result, trace st @ map Close_fd (deferred st)))"

section \<open>The retry orchestrator: \<open>findPartition\<close>\<close>

text \<open>
  The loop \<open>for { ... }\<close> of \<open>findPartition\<close>; \<open>k\<close> counts the calls of \<open>getBlockDevs\<close>
  made before.  \<open>timeout\<close> is a \<open>uint\<close>, 32 or 64 bits wide with the platform; it is
  decremented only when it is not zero.
\<close>

function enumerate_loop ::
  "world \<Rightarrow> nat \<Rightarrow> 'a::len word \<Rightarrow> event list \<Rightarrow> (error + string list) \<times> event list" where
  "enumerate_loop w k timeout tr =
     (case getBlockDevs w k of
        Inl err \<Rightarrow> (Inl (ErrGetBlockDevs err), tr @ [Call_getBlockDevs])
      | Inr devices \<Rightarrow>
          if length devices = 0 then
            (if timeout = 0 then (Inl ErrNoBlockDevices, tr @ [Call_getBlockDevs])
             else enumerate_loop w (k + 1) (timeout - 1)
                    (tr @ [Call_getBlockDevs, Debug_Waiting (unat timeout), Sleep_Second]))
          else (Inr devices, tr @ [Call_getBlockDevs]))"
  by pat_completeness auto
termination
  by (relation "measure (\<lambda>(w, k, timeout, tr). unat timeout)") (auto simp: unat_minus_one unat_gt_0)

declare enumerate_loop.simps [simp del]

text \<open>\<open>findPartition\<close>: the returned error (\<open>None\<close> for \<open>nil\<close>) and the effects.\<close>

definition findPartition ::
  "world \<Rightarrow> gostring \<Rightarrow> string \<Rightarrow> string \<Rightarrow> 'a::len word \<Rightarrow> error option \<times> event list" where
  "findPartition w label fsType mountPoint timeout =
     (let tr0 = [Debug_Search label, ReadFile_proc_filesystems] in
      case proc_filesystems w of
        Inl err \<Rightarrow> (Some (ErrReadFile err), tr0)
      | Inr fs \<Rightarrow>
          if \<not> strings_Contains fs fsType then (Some (ErrFilesystemUnknown fsType), tr0)
          else
            (case enumerate_loop w 0 timeout tr0 of
               (Inl err, tr1) \<Rightarrow> (Some err, tr1)
             | (Inr devices, tr1) \<Rightarrow>
                 (case deviceByPartLabel w devices label of
                    (Inl err, tr2) \<Rightarrow> (Some (ErrFailedToGetDevice label err), tr1 @ tr2)
                  | (Inr device, tr2) \<Rightarrow>
                      (let tr3 = tr1 @ tr2 @ [Call_Mount device mountPoint fsType] in
                       case mount_Mount w device mountPoint fsType of
                         Inl err \<Rightarrow> (Some (ErrMount device err), tr3)
                       | Inr (mp_Device, mp_Path) \<Rightarrow>
                           (None, tr3 @ [Debug_Mounted mp_Device mp_Path])))))"

text \<open>The two entry points.\<close>

definition STBOOT :: gostring where
  "STBOOT = [0x53, 0x54, 0x42, 0x4F, 0x4F, 0x54]"

definition STDATA :: gostring where
  "STDATA = [0x53, 0x54, 0x44, 0x41, 0x54, 0x41]"

definition mountBootPartition :: "world \<Rightarrow> error option \<times> event list" where
  "mountBootPartition w = findPartition w STBOOT ''vfat'' ''boot'' (60 :: 64 word)"

definition mountDataPartition :: "world \<Rightarrow> error option \<times> event list" where
  "mountDataPartition w = findPartition w STDATA ''ext4'' ''data'' (60 :: 64 word)"

section \<open>Notions used in the statements\<close>

text \<open>
  The effects of \<open>N\<close> waiting rounds of the loop of \<open>findPartition\<close> entered with the
  budget \<open>K\<close>: an enumeration, the message with the remaining budget, a sleep.
\<close>

definition waits :: "nat \<Rightarrow> nat \<Rightarrow> event list" where
  "waits K N = concat (map (\<lambda>i. [Call_getBlockDevs, Debug_Waiting (K - i), Sleep_Second]) [0..<N])"

text \<open>The effects that the first loop of \<open>deviceByPartLabel\<close> can have.\<close>

fun scan_event :: "event \<Rightarrow> bool" where
  "scan_event (Open_ok x) = True"
| "scan_event (Debug_SkipDevice x e) = True"
| "scan_event (Debug_SkipEmpty x) = True"
| "scan_event (Debug_SkipPartition x n e) = True"
| "scan_event (Info_Found x p) = True"
| "scan_event (Debug_NoMatch x n l) = True"
| "scan_event _ = False"

text \<open>
  A concrete environment for the examples: the text of \<open>/proc/filesystems\<close> lists
  \<open>sysfs\<close>, \<open>ext4\<close> and \<open>vfat\<close>; the first two walks find only a loop device, later walks
  find \<open>sda\<close>, \<open>sda1\<close> and \<open>sda2\<close>; every non-empty path can be opened; only \<open>/dev/sda\<close>
  holds a GPT, with the entries \<open>STBOOT\<close>, \<open>STDATA\<close> and an empty one; mounting succeeds.
\<close>

definition tab :: char where "tab = CHR 0x09"

definition newline :: char where "newline = CHR 0x0A"

definition example_filesystems :: string where
  "example_filesystems =
     ''nodev'' @ [tab] @ ''sysfs'' @ [newline] @ [tab] @ ''ext4'' @ [newline] @
     [tab] @ ''vfat'' @ [newline]"

text \<open>The 72-byte name field of a label of ASCII characters: UTF-16LE, padded with NUL.\<close>

definition name_field :: "gostring \<Rightarrow> byte list" where
  "name_field l = concat (map (\<lambda>c. [c, 0]) l) @ replicate (72 - 2 * length l) 0"

definition example_table :: "partition list" where
  "example_table =
     [\<lparr>IsEmpty = False, PartNameUTF16 = name_field STBOOT\<rparr>,
      \<lparr>IsEmpty = False, PartNameUTF16 = name_field STDATA\<rparr>,
      \<lparr>IsEmpty = True, PartNameUTF16 = replicate 72 0\<rparr>]"

definition example_world :: world where
  "example_world =
     \<lparr>proc_filesystems = Inr example_filesystems,
      sys_class_block =
        (\<lambda>k. if k < 2 then [(''.'', None), (''loop0'', None)]
             else [(''.'', None), (''loop0'', None), (''sda'', None), (''sda1'', None),
                   (''sda2'', None)]),
      os_Open = (\<lambda>dev. if dev = [] then Some (IOErr 2) else None),
      fd_Seek = (\<lambda>dev. None),
      gpt_ReadTable = (\<lambda>dev. if dev = ''/dev/sda'' then Inr example_table else Inl (IOErr 1)),
      mount_Mount = (\<lambda>dev mountPoint fsType. Inr (dev, mountPoint))\<rparr>"

definition example_world_no_devices :: world where
  "example_world_no_devices =
     example_world\<lparr>sys_class_block := (\<lambda>k. [(''.'', None), (''loop0'', None)])\<rparr>"

text \<open>
  The supported types as the claim about the file-system check reads them: each line of
  the capability list names one type, in its last tab-separated field (the first field
  is empty or \<open>nodev\<close>).  \<open>spec_isSupported\<close> is membership among these names.
\<close>

fun split_on :: "char \<Rightarrow> string \<Rightarrow> string list" where
  "split_on c [] = [[]]"
| "split_on c (x # xs) =
     (if x = c then [] # split_on c xs
      else (case split_on c xs of [] \<Rightarrow> [[x]] | f # fs \<Rightarrow> (x # f) # fs))"

definition spec_supported_types :: "string \<Rightarrow> string list" where
  "spec_supported_types fs =
     map (\<lambda>line. last (split_on tab line)) (filter (\<lambda>line. line \<noteq> []) (split_on newline fs))"

definition spec_isSupported :: "string \<Rightarrow> string \<Rightarrow> bool" where
  "spec_isSupported fs fsType = (fsType \<in> set (spec_supported_types fs))"

text \<open>
  The table the scan reads from a device (\<open>None\<close> when the device is skipped), the
  entries the scan accepts for a label, and whether the scan has found its pair.
\<close>

definition table_of :: "world \<Rightarrow> string \<Rightarrow> partition list option" where
  "table_of w device =
     (case os_Open w device of
        Some err \<Rightarrow> None
      | None \<Rightarrow>
          (case fd_Seek w device of
             Some err \<Rightarrow> None
           | None \<Rightarrow> (case gpt_ReadTable w device of Inl err \<Rightarrow> None | Inr table \<Rightarrow> Some table)))"

definition matches :: "gostring \<Rightarrow> partition \<Rightarrow> bool" where
  "matches label part = (\<not> IsEmpty part \<and> decodeLabel (PartNameUTF16 part) = Inr label)"

definition found :: "scan_state \<Rightarrow> bool" where
  "found st = (var_d st \<noteq> [] \<and> var_p st \<noteq> [])"

text \<open>
  The largest number of inspection handles open at one time during a sequence of
  effects, \<open>n\<close> being open at its start.
\<close>

fun handles_peak :: "nat \<Rightarrow> event list \<Rightarrow> nat" where
  "handles_peak n [] = n"
| "handles_peak n (Open_ok x # es) = handles_peak (n + 1) es"
| "handles_peak n (Close_fd x # es) = max n (handles_peak (n - 1) es)"
| "handles_peak n (e # es) = handles_peak n es"


text \<open>
  The notions of the round-trip claim, which are not part of the program: decoding a
  UTF-8 string into code points (shortest forms only, no surrogates; an offending byte
  becomes \<open>U+FFFD\<close>), encoding code points as UTF-16 (\<open>utf16.Encode\<close>), writing 16-bit
  units as little-endian bytes, the input without its trailing NUL units, and
  well-formed UTF-16 (every surrogate is part of a pair).
\<close>

definition is_cont :: "byte \<Rightarrow> bool" where
  "is_cont b = (b AND 0xC0 = 0x80)"

definition spec_dec2 :: "byte list \<Rightarrow> rune option" where
  "spec_dec2 s =
     (case s of
        b0 # b1 # _ \<Rightarrow>
          (let r = push_bit 6 (ucast (b0 AND 0x1F)) OR ucast (b1 AND 0x3F) in
           if b0 AND 0xE0 = 0xC0 \<and> is_cont b1 \<and> 0x80 \<le> r then Some r else None)
      | _ \<Rightarrow> None)"

definition spec_dec3 :: "byte list \<Rightarrow> rune option" where
  "spec_dec3 s =
     (case s of
        b0 # b1 # b2 # _ \<Rightarrow>
          (let r = push_bit 12 (ucast (b0 AND 0x0F)) OR push_bit 6 (ucast (b1 AND 0x3F)) OR
                   ucast (b2 AND 0x3F) in
           if b0 AND 0xF0 = 0xE0 \<and> is_cont b1 \<and> is_cont b2 \<and> 0x800 \<le> r \<and>
              (r < surr1 \<or> surr3 \<le> r)
           then Some r else None)
      | _ \<Rightarrow> None)"

definition spec_dec4 :: "byte list \<Rightarrow> rune option" where
  "spec_dec4 s =
     (case s of
        b0 # b1 # b2 # b3 # _ \<Rightarrow>
          (let r = push_bit 18 (ucast (b0 AND 0x07)) OR push_bit 12 (ucast (b1 AND 0x3F)) OR
                   push_bit 6 (ucast (b2 AND 0x3F)) OR ucast (b3 AND 0x3F) in
           if b0 AND 0xF8 = 0xF0 \<and> is_cont b1 \<and> is_cont b2 \<and> is_cont b3 \<and>
              surrSelf \<le> r \<and> r \<le> MaxRune
           then Some r else None)
      | _ \<Rightarrow> None)"

definition spec_utf8_decode1 :: "byte list \<Rightarrow> rune \<times> nat" where
  "spec_utf8_decode1 s =
     (case s of
        [] \<Rightarrow> (RuneError, 0)
      | b0 # _ \<Rightarrow>
          if b0 AND 0x80 = 0 then (ucast b0, 1)
          else (case spec_dec2 s of
                  Some r \<Rightarrow> (r, 2)
                | None \<Rightarrow>
                    (case spec_dec3 s of
                       Some r \<Rightarrow> (r, 3)
                     | None \<Rightarrow>
                         (case spec_dec4 s of Some r \<Rightarrow> (r, 4) | None \<Rightarrow> (RuneError, 1)))))"

function spec_utf8_runes :: "byte list \<Rightarrow> rune list" where
  "spec_utf8_runes s =
     (if s = [] then []
      else fst (spec_utf8_decode1 s) # spec_utf8_runes (drop (snd (spec_utf8_decode1 s)) s))"
  by pat_completeness auto

termination
  by (relation "measure length")
     (auto simp: spec_utf8_decode1_def split: list.splits option.splits)

declare spec_utf8_runes.simps [simp del]

definition spec_utf16_encode1 :: "rune \<Rightarrow> uint16 list" where
  "spec_utf16_encode1 v =
     (if v < surr1 \<or> (surr3 \<le> v \<and> v < surrSelf) then [ucast v]
      else if surrSelf \<le> v \<and> v \<le> MaxRune then
        [ucast (surr1 + (drop_bit 10 (v - surrSelf) AND 0x3FF)),
         ucast (surr2 + ((v - surrSelf) AND 0x3FF))]
      else [ucast RuneError])"

definition spec_utf16_encode :: "rune list \<Rightarrow> uint16 list" where
  "spec_utf16_encode rs = concat (map spec_utf16_encode1 rs)"

definition le_bytes :: "uint16 list \<Rightarrow> byte list" where
  "le_bytes us = concat (map (\<lambda>u. [ucast u, ucast (drop_bit 8 u)]) us)"

definition spec_reencode :: "gostring \<Rightarrow> byte list" where
  "spec_reencode s = le_bytes (spec_utf16_encode (spec_utf8_runes s))"

definition spec_nonNUL_prefix :: "byte list \<Rightarrow> byte list" where
  "spec_nonNUL_prefix b = le_bytes (rev (dropWhile (\<lambda>u. u = 0) (rev (code_units b))))"

definition trim_units :: "uint16 list \<Rightarrow> uint16 list" where
  "trim_units us = rev (dropWhile (\<lambda>u. u = 0) (rev (dropWhile (\<lambda>u. u = 0) us)))"

definition is_surrogate :: "uint16 \<Rightarrow> bool" where
  "is_surrogate u = (surr1 \<le> ucast u \<and> ucast u < surr3)"

fun spec_valid_utf16 :: "uint16 list \<Rightarrow> bool" where
  "spec_valid_utf16 [] = True"
| "spec_valid_utf16 [u] = (\<not> is_surrogate u)"
| "spec_valid_utf16 (u # v # us) =
     (if surr1 \<le> ucast u \<and> ucast u < surr2
      then surr2 \<le> ucast v \<and> ucast v < surr3 \<and> spec_valid_utf16 us
      else \<not> is_surrogate u \<and> spec_valid_utf16 (v # us))"




section \<open>Properties of the label codec\<close>

lemma drop_two: "i + 1 < length b \<Longrightarrow> drop i b = b ! i # b ! (i + 1) # drop (i + 2) b"
  by (metis Cons_nth_drop_Suc Suc_eq_plus1 Suc_lessD add_2_eq_Suc')

text \<open>
  What the loop returns from any index: it panics exactly when an odd number of bytes
  is left, and otherwise appends the encoding of each remaining unit.
\<close>

lemma decodeLabel_loop_eq:
  "decodeLabel_loop b i ret =
     (if even (length b - i) then Inr (ret @ concat (map unit_utf8 (code_units (drop i b))))
      else Inl PanicIndexOutOfRange)"
proof (induction b i ret rule: decodeLabel_loop.induct)
  case (1 b i ret)
  show ?case
  proof (cases "i < length b")
    case False
    then show ?thesis by (simp add: decodeLabel_loop.simps [of b i ret])
  next
    case lt: True
    show ?thesis
    proof (cases "i + 1 < length b")
      case False
      with lt have "length b - i = 1" by simp
      with lt False show ?thesis by (simp add: decodeLabel_loop.simps [of b i ret])
    next
      case True
      let ?u = "ucast (b ! i) + push_bit 8 (ucast (b ! (i + 1))) :: uint16"
      let ?r = "if ucast ?u < surr1 \<or> surr3 \<le> ucast ?u then ucast ?u else RuneError"
      have dec: "utf16_Decode [?u] = [?r]" by simp
      have par: "even (length b - (i + 2)) = even (length b - i)" using True by auto
      have step: "decodeLabel_loop b i ret = decodeLabel_loop b (i + 2) (ret @ utf8_EncodeRune ?r)"
        using lt True by (subst decodeLabel_loop.simps) (simp add: Let_def)
      have ih: "decodeLabel_loop b (i + 2) (ret @ utf8_EncodeRune ?r) =
         (if even (length b - (i + 2))
          then Inr ((ret @ utf8_EncodeRune ?r) @
                    concat (map unit_utf8 (code_units (drop (i + 2) b))))
          else Inl PanicIndexOutOfRange)"
        using "1.IH" [OF lt True refl dec] .
      have u: "unit_utf8 ?u = utf8_EncodeRune ?r" by (simp add: unit_utf8_def)
      have cu: "code_units (drop i b) = ?u # code_units (drop (i + 2) b)"
        by (simp add: drop_two [OF True])
      show ?thesis
        unfolding step ih par cu
        by (simp only: list.map concat.simps u append_assoc)
    qed
  qed
qed

lemma decodeLabel_even:
  "even (length b) \<Longrightarrow>
   decodeLabel b = Inr (strings_Trim (concat (map unit_utf8 (code_units b))) 0)"
  by (simp add: decodeLabel_def decodeLabel_loop_eq even_iff_mod_2_eq_zero)

lemma decodeLabel_odd: "odd (length b) \<Longrightarrow> decodeLabel b = Inl ErrOddLabel"
  by (simp add: decodeLabel_def odd_iff_mod_2_eq_one)

lemma takeWhile_eq_replicate:
  "takeWhile (\<lambda>x. x = c) xs = replicate (length (takeWhile (\<lambda>x. x = c) xs)) c"
  by (induction xs) auto

lemma strings_Trim_decomp: "\<exists>i j. s = replicate i c @ strings_Trim s c @ replicate j c"
proof -
  let ?P = "\<lambda>x. x = c"
  let ?m = "dropWhile ?P s"
  have a: "s = takeWhile ?P s @ ?m" by simp
  have b: "rev ?m = takeWhile ?P (rev ?m) @ dropWhile ?P (rev ?m)" by simp
  have "?m = rev (dropWhile ?P (rev ?m)) @ rev (takeWhile ?P (rev ?m))"
    by (metis b rev_append rev_rev_ident)
  then have c: "?m = strings_Trim s c @ rev (takeWhile ?P (rev ?m))"
    by (simp add: strings_Trim_def)
  have d: "rev (takeWhile ?P (rev ?m)) = replicate (length (takeWhile ?P (rev ?m))) c"
    by (metis takeWhile_eq_replicate rev_replicate)
  have "s = replicate (length (takeWhile ?P s)) c @ strings_Trim s c @
            replicate (length (takeWhile ?P (rev ?m))) c"
    using a c d takeWhile_eq_replicate [of c s] by metis
  then show ?thesis by blast
qed

lemma strings_Trim_ends:
  assumes "strings_Trim s c \<noteq> []"
  shows "hd (strings_Trim s c) \<noteq> c \<and> last (strings_Trim s c) \<noteq> c"
proof -
  let ?P = "\<lambda>x. x = c"
  let ?m = "dropWhile ?P s"
  let ?t = "dropWhile ?P (rev ?m)"
  have t: "strings_Trim s c = rev ?t" by (simp add: strings_Trim_def)
  with assms have ne: "?t \<noteq> []" by simp
  then have "hd ?t \<noteq> c" using hd_dropWhile [of ?P "rev ?m"] by blast
  then have l: "last (strings_Trim s c) \<noteq> c" using ne by (simp add: t last_rev)
  have mne: "?m \<noteq> []"
  proof
    assume "?m = []"
    then have "?t = []" by (metis dropWhile.simps(1) rev.simps(1))
    with ne show False by simp
  qed
  then have hm: "hd ?m \<noteq> c" using hd_dropWhile [of ?P s] by blast
  have "rev ?m = takeWhile ?P (rev ?m) @ ?t" by simp
  then have "?m = rev ?t @ rev (takeWhile ?P (rev ?m))" by (metis rev_append rev_rev_ident)
  then have "hd ?m = hd (rev ?t)" using ne by (metis hd_append2 rev_is_Nil_conv)
  with hm have "hd (strings_Trim s c) \<noteq> c" by (simp add: t)
  with l show ?thesis by simp
qed

text \<open>
  Claim C1.  The claim says that a valid surrogate pair in the input is decoded to the
  one supplementary character it encodes.  The loop hands \<open>utf16.Decode\<close> one unit at a
  time, so each half of a pair is seen alone and replaced by \<open>U+FFFD\<close>.  For the bytes
  \<open>3D D8 00 DE\<close> (the pair \<open>D83D DE00\<close>, the character \<open>U+1F600\<close>): decoding the two
  units together gives \<open>U+1F600\<close>, whose UTF-8 form is \<open>F0 9F 98 80\<close>, while \<open>decodeLabel\<close>
  returns \<open>EF BF BD EF BF BD\<close>, two replacement characters.
\<close>

theorem decodeLabel_surrogate_pair_replaced:
  "utf16_Decode (code_units [0x3D, 0xD8, 0x00, 0xDE]) = [0x1F600] \<and>
   utf8_EncodeRune 0x1F600 = [0xF0, 0x9F, 0x98, 0x80] \<and>
   decodeLabel [0x3D, 0xD8, 0x00, 0xDE] = Inr [0xEF, 0xBF, 0xBD, 0xEF, 0xBF, 0xBD]"
  by code_simp

text \<open>
  Claim C8.  \<open>decodeLabel\<close> fails exactly when the length of its input is odd: on an odd
  length it returns the odd-length error, on an even length it returns a string; the
  out-of-range panic of the loop is never reached.  (Termination is part of the
  definition: the loop is a total function.)
\<close>

theorem decodeLabel_fails_iff_odd_length:
  "(odd (length b) \<longrightarrow> decodeLabel b = Inl ErrOddLabel) \<and>
   (even (length b) \<longrightarrow> (\<exists>s. decodeLabel b = Inr s))"
  by (simp add: decodeLabel_even decodeLabel_odd)

theorem decodeLabel_fails_iff_odd_length_witness:
  "odd (length [0x53, 0, 0x54 :: byte]) \<and> decodeLabel [0x53, 0, 0x54] = Inl ErrOddLabel \<and>
   even (length [0x00, 0xD8 :: byte]) \<and> (\<exists>s. decodeLabel [0x00, 0xD8] = Inr s)"
  using decodeLabel_fails_iff_odd_length [of "[0x53, 0, 0x54]"]
        decodeLabel_fails_iff_odd_length [of "[0x00, 0xD8]"]
  by simp

text \<open>
  Claim C10.  For an even-length input, the returned string is the decoded text with
  the NUL characters of both ends removed: the decoded text is some NULs, the result,
  and some NULs; the result neither begins nor ends with NUL; what lies between its
  ends, NULs included, is kept.
\<close>

theorem decodeLabel_strips_both_ends:
  assumes "even (length b)"
  shows "\<exists>raw s i j. decodeLabel_loop b 0 [] = Inr raw \<and> decodeLabel b = Inr s \<and>
           raw = replicate i 0 @ s @ replicate j 0 \<and>
           (s \<noteq> [] \<longrightarrow> hd s \<noteq> 0 \<and> last s \<noteq> 0)"
proof -
  let ?raw = "concat (map unit_utf8 (code_units b))"
  let ?s = "strings_Trim ?raw 0"
  have r: "decodeLabel_loop b 0 [] = Inr ?raw" using assms by (simp add: decodeLabel_loop_eq)
  have s: "decodeLabel b = Inr ?s" using assms by (rule decodeLabel_even)
  obtain i j where d: "?raw = replicate i 0 @ ?s @ replicate j 0"
    using strings_Trim_decomp [of ?raw 0] by blast
  have e: "?s \<noteq> [] \<longrightarrow> hd ?s \<noteq> 0 \<and> last ?s \<noteq> 0"
    using strings_Trim_ends [of ?raw 0] by blast
  from r s d e show ?thesis by blast
qed

theorem decodeLabel_strips_both_ends_witness:
  "even (length [0, 0, 0x41, 0, 0, 0, 0x42, 0, 0, 0 :: byte]) \<and>
   decodeLabel_loop [0, 0, 0x41, 0, 0, 0, 0x42, 0, 0, 0] 0 [] = Inr [0, 0x41, 0, 0x42, 0] \<and>
   decodeLabel [0, 0, 0x41, 0, 0, 0, 0x42, 0, 0, 0] = Inr [0x41, 0, 0x42] \<and>
   (\<exists>raw s i j. decodeLabel_loop [0, 0, 0x41, 0, 0, 0, 0x42, 0, 0, 0] 0 [] = Inr raw \<and>
      decodeLabel [0, 0, 0x41, 0, 0, 0, 0x42, 0, 0, 0] = Inr s \<and>
      raw = replicate i 0 @ s @ replicate j 0 \<and> (s \<noteq> [] \<longrightarrow> hd s \<noteq> 0 \<and> last s \<noteq> 0))"
proof -
  have e: "even (length [0, 0, 0x41, 0, 0, 0, 0x42, 0, 0, 0 :: byte])" by simp
  have l: "decodeLabel_loop [0, 0, 0x41, 0, 0, 0, 0x42, 0, 0, 0] 0 [] = Inr [0, 0x41, 0, 0x42, 0]"
    by code_simp
  have d: "decodeLabel [0, 0, 0x41, 0, 0, 0, 0x42, 0, 0, 0] = Inr [0x41, 0, 0x42]"
    by code_simp
  from e l d decodeLabel_strips_both_ends [OF e] show ?thesis by blast
qed

section \<open>Properties of the retry orchestrator\<close>

lemma waits_Suc: "waits K (Suc N) = waits K N @ [Call_getBlockDevs, Debug_Waiting (K - N), Sleep_Second]"
  by (simp add: waits_def)

lemma waits_Suc_front:
  "waits K (Suc N) = [Call_getBlockDevs, Debug_Waiting K, Sleep_Second] @ waits (K - 1) N"
proof -
  have "[0..<Suc N] = 0 # map Suc [0..<N]" by (simp add: upt_conv_Cons map_Suc_upt del: upt_Suc)
  then show ?thesis by (simp add: waits_def comp_def del: upt_Suc)
qed

text \<open>
  While the enumerator returns no device and the budget lasts, the loop goes round:
  after \<open>N\<close> rounds it is at call \<open>k + N\<close> with the budget \<open>K - N\<close>.
\<close>

lemma enumerate_loop_wait:
  fixes K :: "'a::len word"
  assumes "N \<le> unat K" and "\<forall>j<N. getBlockDevs w (k + j) = Inr []"
  shows "enumerate_loop w k K tr = enumerate_loop w (k + N) (K - of_nat N) (tr @ waits (unat K) N)"
  using assms
proof (induction N arbitrary: k K tr)
  case 0
  then show ?case by (simp add: waits_def)
next
  case (Suc N)
  from Suc.prems have K0: "K \<noteq> 0" by auto
  from Suc.prems have e0: "getBlockDevs w k = Inr []" by (metis add.right_neutral zero_less_Suc)
  have u: "unat (K - 1) = unat K - 1" using K0 by (simp add: unat_minus_one)
  have step: "enumerate_loop w k K tr =
      enumerate_loop w (k + 1) (K - 1) (tr @ [Call_getBlockDevs, Debug_Waiting (unat K), Sleep_Second])"
    using K0 e0 by (subst enumerate_loop.simps) simp
  have le: "N \<le> unat (K - 1)" using Suc.prems u by simp
  have all: "\<forall>j<N. getBlockDevs w (k + 1 + j) = Inr []"
    using Suc.prems(2) by (metis Suc_eq_plus1 Suc_less_eq add_Suc_right add_Suc)
  have ih: "enumerate_loop w (k + 1) (K - 1) (tr @ [Call_getBlockDevs, Debug_Waiting (unat K), Sleep_Second]) =
     enumerate_loop w (k + 1 + N) (K - 1 - of_nat N)
       ((tr @ [Call_getBlockDevs, Debug_Waiting (unat K), Sleep_Second]) @ waits (unat (K - 1)) N)"
    by (rule Suc.IH [OF le all])
  show ?case unfolding step ih u by (simp add: waits_Suc_front algebra_simps)
qed

lemma emit_simps:
  "trace (emit e st) = trace st @ [e]" "deferred (emit e st) = deferred st"
  "var_d (emit e st) = var_d st" "var_p (emit e st) = var_p st"
  by (simp_all add: emit_def)

text \<open>Every effect of the scan is one of the scan's kinds.\<close>

lemma partitions_loop_events:
  "e \<in> set (trace (partitions_loop label device n t st)) \<Longrightarrow> e \<in> set (trace st) \<or> scan_event e"
proof (induction t arbitrary: n st)
  case Nil
  then show ?case by simp
next
  case (Cons part rest)
  show ?case
  proof (cases "IsEmpty part")
    case True
    with Cons.prems Cons.IH [of "n + 1" "emit (Debug_SkipEmpty device) st"]
    show ?thesis by (auto simp: emit_simps)
  next
    case ne: False
    show ?thesis
    proof (cases "decodeLabel (PartNameUTF16 part)")
      case (Inl err)
      with ne Cons.prems Cons.IH [of "n + 1" "emit (Debug_SkipPartition device (n + 1) err) st"]
      show ?thesis by (auto simp: emit_simps)
    next
      case (Inr l)
      with ne Cons.prems Cons.IH [of "n + 1" "emit (Debug_NoMatch device (n + 1) label) st"]
      show ?thesis by (cases "l = label") (auto simp: emit_simps)
    qed
  qed
qed

lemma devices_loop_events:
  "e \<in> set (trace (devices_loop w label devices st)) \<Longrightarrow> e \<in> set (trace st) \<or> scan_event e"
proof (induction devices arbitrary: st)
  case Nil
  then show ?case by simp
next
  case (Cons device rest)
  let ?st1 = "(emit (Open_ok device) st)\<lparr>deferred := device # deferred st\<rparr>"
  note t1 = emit_simps
  note sk = emit_simps
  show ?case
  proof (cases "os_Open w device")
    case (Some err)
    with Cons.prems have "e \<in> set (trace (devices_loop w label rest (emit (Debug_SkipDevice device err) st)))"
      by simp
    from Cons.IH [OF this] show ?thesis by (auto simp: sk)
  next
    case None
    show ?thesis
    proof (cases "fd_Seek w device")
      case (Some err)
      with None Cons.prems have "e \<in> set (trace (devices_loop w label rest (emit (Debug_SkipDevice device err) ?st1)))"
        by (simp add: Let_def)
      from Cons.IH [OF this] show ?thesis by (auto simp: sk t1)
    next
      case sn: None
      show ?thesis
      proof (cases "gpt_ReadTable w device")
        case (Inl err)
        with None sn Cons.prems have "e \<in> set (trace (devices_loop w label rest (emit (Debug_SkipDevice device err) ?st1)))"
          by (simp add: Let_def)
        from Cons.IH [OF this] show ?thesis by (auto simp: sk t1)
      next
        case (Inr table)
        let ?st2 = "partitions_loop label device 0 table ?st1"
        have "e \<in> set (trace ?st2) \<or> e \<in> set (trace (devices_loop w label rest ?st2))"
          using None sn Inr Cons.prems by (simp add: Let_def split: if_splits)
        then have "e \<in> set (trace ?st2) \<or> scan_event e" using Cons.IH [of ?st2] by blast
        then have "e \<in> set (trace ?st1) \<or> scan_event e"
          using partitions_loop_events [of e label device 0 table ?st1] by blast
        then show ?thesis by (auto simp: t1)
      qed
    qed
  qed
qed

lemma deviceByPartLabel_events:
  "e \<in> set (snd (deviceByPartLabel w devices label)) \<Longrightarrow> scan_event e \<or> (\<exists>x. e = Close_fd x)"
  using devices_loop_events [of e w label devices init_state]
  by (auto simp: deviceByPartLabel_def Let_def init_state_def)

lemma count_waits:
  "count_list (waits K N) Call_getBlockDevs = N" "count_list (waits K N) Sleep_Second = N"
  by (induction N) (simp_all add: waits_Suc, simp_all add: waits_def)

lemma count_list_scan:
  "\<forall>e\<in>set es. scan_event e \<or> (\<exists>x. e = Close_fd x) \<Longrightarrow> count_list es Call_getBlockDevs = 0 \<and> count_list es Sleep_Second = 0 \<and> count_list es ReadFile_proc_filesystems = 0"
  by (induction es) auto

lemma enumerate_loop_exhausted:
  fixes K :: "'a::len word"
  assumes "\<forall>k\<le>unat K. getBlockDevs w k = Inr []"
  shows "enumerate_loop w 0 K tr =
           (Inl ErrNoBlockDevices, tr @ waits (unat K) (unat K) @ [Call_getBlockDevs])"
proof -
  have "enumerate_loop w 0 K tr = enumerate_loop w (0 + unat K) (K - of_nat (unat K)) (tr @ waits (unat K) (unat K))"
    using assms by (intro enumerate_loop_wait) auto
  also have "\<dots> = (Inl ErrNoBlockDevices, (tr @ waits (unat K) (unat K)) @ [Call_getBlockDevs])"
    using assms by (subst enumerate_loop.simps) simp
  finally show ?thesis by simp
qed

lemma enumerate_loop_found:
  fixes K :: "'a::len word"
  assumes "N \<le> unat K" "\<forall>k<N. getBlockDevs w k = Inr []" "getBlockDevs w N = Inr devices" "devices \<noteq> []"
  shows "enumerate_loop w 0 K tr = (Inr devices, tr @ waits (unat K) N @ [Call_getBlockDevs])"
proof -
  have "enumerate_loop w 0 K tr = enumerate_loop w (0 + N) (K - of_nat N) (tr @ waits (unat K) N)"
    using assms by (intro enumerate_loop_wait) auto
  also have "\<dots> = (Inr devices, (tr @ waits (unat K) N) @ [Call_getBlockDevs])"
    using assms by (subst enumerate_loop.simps) simp
  finally show ?thesis by simp
qed

lemma findPartition_after_enumeration:
  assumes "proc_filesystems w = Inr fs" "strings_Contains fs fsType"
    "enumerate_loop w 0 K [Debug_Search label, ReadFile_proc_filesystems] = (Inr devices, tr1)"
  shows "\<exists>rest. snd (findPartition w label fsType mountPoint K) = tr1 @ rest \<and>
           count_list rest Call_getBlockDevs = 0 \<and> count_list rest Sleep_Second = 0
           \<and> count_list rest ReadFile_proc_filesystems = 0"
proof -
  obtain r tr2 where d: "deviceByPartLabel w devices label = (r, tr2)" by (cases "deviceByPartLabel w devices label")
  have sc: "\<forall>e\<in>set tr2. scan_event e \<or> (\<exists>x. e = Close_fd x)" using deviceByPartLabel_events [of _ w devices label] d by simp
  note c = count_list_scan [OF sc]
  show ?thesis
  proof (cases r)
    case (Inl err)
    then have "snd (findPartition w label fsType mountPoint K) = tr1 @ tr2"
      using assms d by (simp add: findPartition_def)
    then show ?thesis using c by blast
  next
    case (Inr device)
    show ?thesis
    proof (cases "mount_Mount w device mountPoint fsType")
      case (Inl err)
      then have "snd (findPartition w label fsType mountPoint K) = tr1 @ (tr2 @ [Call_Mount device mountPoint fsType])"
        using assms d Inr by (simp add: findPartition_def)
      moreover have "count_list (tr2 @ [Call_Mount device mountPoint fsType]) Call_getBlockDevs = 0
        \<and> count_list (tr2 @ [Call_Mount device mountPoint fsType]) Sleep_Second = 0
        \<and> count_list (tr2 @ [Call_Mount device mountPoint fsType]) ReadFile_proc_filesystems = 0" using c by simp
      ultimately show ?thesis by blast
    next
      case (Inr mp)
      obtain a b where mp: "mp = (a, b)" by (cases mp)
      let ?rest = "tr2 @ [Call_Mount device mountPoint fsType, Debug_Mounted a b]"
      have "snd (findPartition w label fsType mountPoint K) = tr1 @ ?rest"
        using assms d \<open>r = Inr device\<close> Inr mp by (simp add: findPartition_def)
      moreover have "count_list ?rest Call_getBlockDevs = 0 \<and> count_list ?rest Sleep_Second = 0
         \<and> count_list ?rest ReadFile_proc_filesystems = 0" using c by simp
      ultimately show ?thesis by blast
    qed
  qed
qed

text \<open>
  Claim C3.  If the enumerator returns no device on each of the calls \<open>0, \<dots>, K\<close>, the
  loop of \<open>findPartition\<close> entered with the budget \<open>K\<close> makes exactly \<open>K + 1\<close> enumerations
  and \<open>K\<close> sleeps, one sleep between two consecutive enumerations, and fails with the
  no-devices error, which \<open>findPartition\<close> returns.  If the first \<open>N \<le> K\<close> calls return no
  device and call \<open>N + 1\<close> returns a non-empty list, the loop leaves with that list after
  exactly \<open>N\<close> waiting rounds, and the whole run of \<open>findPartition\<close> makes \<open>N + 1\<close>
  enumerations and \<open>N\<close> sleeps.  (\<open>findPartition\<close> enters the loop once its file-system
  check has passed.)
\<close>

theorem findPartition_retry_budget:
  fixes K :: "'a::len word"
  shows "((\<forall>k\<le>unat K. getBlockDevs w k = Inr []) \<longrightarrow>
            enumerate_loop w 0 K tr =
              (Inl ErrNoBlockDevices, tr @ waits (unat K) (unat K) @ [Call_getBlockDevs]) \<and>
            count_list (waits (unat K) (unat K) @ [Call_getBlockDevs]) Call_getBlockDevs =
              unat K + 1 \<and>
            count_list (waits (unat K) (unat K) @ [Call_getBlockDevs]) Sleep_Second = unat K \<and>
            (proc_filesystems w = Inr fs \<and> strings_Contains fs fsType \<longrightarrow>
               findPartition w label fsType mountPoint K =
                 (Some ErrNoBlockDevices,
                  [Debug_Search label, ReadFile_proc_filesystems] @ waits (unat K) (unat K) @
                  [Call_getBlockDevs]))) \<and>
         (\<forall>N devices. N \<le> unat K \<and> (\<forall>k<N. getBlockDevs w k = Inr []) \<and>
              getBlockDevs w N = Inr devices \<and> devices \<noteq> [] \<longrightarrow>
            enumerate_loop w 0 K tr =
              (Inr devices, tr @ waits (unat K) N @ [Call_getBlockDevs]) \<and>
            count_list (waits (unat K) N @ [Call_getBlockDevs]) Call_getBlockDevs = N + 1 \<and>
            count_list (waits (unat K) N @ [Call_getBlockDevs]) Sleep_Second = N \<and>
            (proc_filesystems w = Inr fs \<and> strings_Contains fs fsType \<longrightarrow>
               count_list (snd (findPartition w label fsType mountPoint K)) Call_getBlockDevs =
                 N + 1 \<and>
               count_list (snd (findPartition w label fsType mountPoint K)) Sleep_Second = N))"
proof (intro conjI allI impI)
  let ?tr0 = "[Debug_Search label, ReadFile_proc_filesystems]"
  assume a: "\<forall>k\<le>unat K. getBlockDevs w k = Inr []"
  show "enumerate_loop w 0 K tr =
      (Inl ErrNoBlockDevices, tr @ waits (unat K) (unat K) @ [Call_getBlockDevs])"
    by (rule enumerate_loop_exhausted [OF a])
  show "count_list (waits (unat K) (unat K) @ [Call_getBlockDevs]) Call_getBlockDevs = unat K + 1"
    by (simp add: count_waits)
  show "count_list (waits (unat K) (unat K) @ [Call_getBlockDevs]) Sleep_Second = unat K"
    by (simp add: count_waits)
  assume "proc_filesystems w = Inr fs \<and> strings_Contains fs fsType"
  then show "findPartition w label fsType mountPoint K =
     (Some ErrNoBlockDevices, ?tr0 @ waits (unat K) (unat K) @ [Call_getBlockDevs])"
    using enumerate_loop_exhausted [OF a, of ?tr0] by (simp add: findPartition_def)
next
  fix N devices
  let ?tr0 = "[Debug_Search label, ReadFile_proc_filesystems]"
  assume a: "N \<le> unat K \<and> (\<forall>k<N. getBlockDevs w k = Inr []) \<and>
              getBlockDevs w N = Inr devices \<and> devices \<noteq> []"
  then have el: "enumerate_loop w 0 K t = (Inr devices, t @ waits (unat K) N @ [Call_getBlockDevs])"
    for t by (intro enumerate_loop_found) auto
  show "enumerate_loop w 0 K tr = (Inr devices, tr @ waits (unat K) N @ [Call_getBlockDevs])"
    by (rule el)
  show "count_list (waits (unat K) N @ [Call_getBlockDevs]) Call_getBlockDevs = N + 1"
    by (simp add: count_waits)
  show "count_list (waits (unat K) N @ [Call_getBlockDevs]) Sleep_Second = N"
    by (simp add: count_waits)
  assume "proc_filesystems w = Inr fs \<and> strings_Contains fs fsType"
  then have fs: "proc_filesystems w = Inr fs" "strings_Contains fs fsType" by simp_all
  from findPartition_after_enumeration [OF fs el, of label mountPoint] obtain rest where
    r: "snd (findPartition w label fsType mountPoint K) =
          (?tr0 @ waits (unat K) N @ [Call_getBlockDevs]) @ rest"
      "count_list rest Call_getBlockDevs = 0" "count_list rest Sleep_Second = 0" by blast
  show "count_list (snd (findPartition w label fsType mountPoint K)) Call_getBlockDevs = N + 1"
    unfolding r(1) by (simp add: count_waits r(2))
  show "count_list (snd (findPartition w label fsType mountPoint K)) Sleep_Second = N"
    unfolding r(1) by (simp add: count_waits r(3))
qed

theorem findPartition_retry_budget_witness:
  "enumerate_loop example_world_no_devices 0 (2 :: 64 word) [] =
     (Inl ErrNoBlockDevices,
      [Call_getBlockDevs, Debug_Waiting 2, Sleep_Second,
       Call_getBlockDevs, Debug_Waiting 1, Sleep_Second, Call_getBlockDevs]) \<and>
   findPartition example_world_no_devices STBOOT ''vfat'' ''boot'' (2 :: 64 word) =
     (Some ErrNoBlockDevices,
      [Debug_Search STBOOT, ReadFile_proc_filesystems,
       Call_getBlockDevs, Debug_Waiting 2, Sleep_Second,
       Call_getBlockDevs, Debug_Waiting 1, Sleep_Second, Call_getBlockDevs]) \<and>
   getBlockDevs example_world 2 = Inr [''/dev/sda'', ''/dev/sda1'', ''/dev/sda2''] \<and>
   enumerate_loop example_world 0 (3 :: 64 word) [] =
     (Inr [''/dev/sda'', ''/dev/sda1'', ''/dev/sda2''],
      [Call_getBlockDevs, Debug_Waiting 3, Sleep_Second,
       Call_getBlockDevs, Debug_Waiting 2, Sleep_Second, Call_getBlockDevs]) \<and>
   count_list (snd (findPartition example_world STBOOT ''vfat'' ''boot'' (3 :: 64 word)))
     Call_getBlockDevs = 3 \<and>
   count_list (snd (findPartition example_world STBOOT ''vfat'' ''boot'' (3 :: 64 word)))
     Sleep_Second = 2"
proof -
  have fs0: "proc_filesystems example_world_no_devices = Inr example_filesystems \<and>
      strings_Contains example_filesystems ''vfat''"
    by code_simp
  have fs1: "proc_filesystems example_world = Inr example_filesystems \<and>
      strings_Contains example_filesystems ''vfat''"
    by code_simp
  have lp: "strings_Contains ''loop0'' ''loop''" by code_simp
  have e0: "\<forall>k\<le>unat (2 :: 64 word). getBlockDevs example_world_no_devices k = Inr []"
    using lp by (simp add: getBlockDevs_def example_world_no_devices_def del: strings_Contains.simps)
  have e1: "\<forall>k<2. getBlockDevs example_world k = Inr []"
    using lp by (simp add: getBlockDevs_def example_world_def del: strings_Contains.simps)
  have e2: "getBlockDevs example_world 2 = Inr [''/dev/sda'', ''/dev/sda1'', ''/dev/sda2'']"
    by code_simp
  have h: "2 \<le> unat (3 :: 64 word) \<and> (\<forall>k<2. getBlockDevs example_world k = Inr []) \<and>
     getBlockDevs example_world 2 = Inr [''/dev/sda'', ''/dev/sda1'', ''/dev/sda2''] \<and>
     [''/dev/sda'', ''/dev/sda1'', ''/dev/sda2''] \<noteq> []"
    using e1 e2 by simp
  have w2: "waits (unat (2 :: 64 word)) (unat (2 :: 64 word)) @ [Call_getBlockDevs] =
      [Call_getBlockDevs, Debug_Waiting 2, Sleep_Second,
       Call_getBlockDevs, Debug_Waiting 1, Sleep_Second, Call_getBlockDevs]"
    by code_simp
  have w3: "waits (unat (3 :: 64 word)) 2 @ [Call_getBlockDevs] =
      [Call_getBlockDevs, Debug_Waiting 3, Sleep_Second,
       Call_getBlockDevs, Debug_Waiting 2, Sleep_Second, Call_getBlockDevs]"
    by code_simp
  note t0 = findPartition_retry_budget [where K = "2 :: 64 word" and w = example_world_no_devices
      and tr = "[]" and fs = example_filesystems and fsType = "''vfat''" and label = STBOOT
      and mountPoint = "''boot''", THEN conjunct1, THEN mp, OF e0]
  note t1 = findPartition_retry_budget [where K = "3 :: 64 word" and w = example_world
      and tr = "[]" and fs = example_filesystems and fsType = "''vfat''" and label = STBOOT
      and mountPoint = "''boot''", THEN conjunct2, THEN spec, THEN spec, THEN mp, OF h]
  have a: "enumerate_loop example_world_no_devices 0 (2 :: 64 word) [] =
     (Inl ErrNoBlockDevices,
      [Call_getBlockDevs, Debug_Waiting 2, Sleep_Second,
       Call_getBlockDevs, Debug_Waiting 1, Sleep_Second, Call_getBlockDevs])"
    using t0 [THEN conjunct1] by (simp only: w2 append_Nil)
  have b: "findPartition example_world_no_devices STBOOT ''vfat'' ''boot'' (2 :: 64 word) =
     (Some ErrNoBlockDevices,
      [Debug_Search STBOOT, ReadFile_proc_filesystems,
       Call_getBlockDevs, Debug_Waiting 2, Sleep_Second,
       Call_getBlockDevs, Debug_Waiting 1, Sleep_Second, Call_getBlockDevs])"
    using t0 [THEN conjunct2, THEN conjunct2, THEN conjunct2, THEN mp, OF fs0]
    by (simp only: w2 append_Cons append_Nil)
  have c: "enumerate_loop example_world 0 (3 :: 64 word) [] =
     (Inr [''/dev/sda'', ''/dev/sda1'', ''/dev/sda2''],
      [Call_getBlockDevs, Debug_Waiting 3, Sleep_Second,
       Call_getBlockDevs, Debug_Waiting 2, Sleep_Second, Call_getBlockDevs])"
    using t1 [THEN conjunct1] by (simp only: w3 append_Nil)
  have d: "count_list (snd (findPartition example_world STBOOT ''vfat'' ''boot'' (3 :: 64 word)))
       Call_getBlockDevs = 3 \<and>
     count_list (snd (findPartition example_world STBOOT ''vfat'' ''boot'' (3 :: 64 word)))
       Sleep_Second = 2"
    using t1 [THEN conjunct2, THEN conjunct2, THEN conjunct2, THEN mp, OF fs1] by simp
  from a b e2 c d show ?thesis by blast
qed

section \<open>Properties of the file-system check\<close>

text \<open>
  Claim C6, as stated, fails.  The capability list of the example lists \<open>sysfs\<close>, \<open>ext4\<close>
  and \<open>vfat\<close>; the type \<open>fat\<close> is not listed, yet \<open>findPartition\<close> does not reject it (it
  goes on and mounts), because \<open>fat\<close> occurs inside \<open>vfat\<close>.
\<close>

theorem findPartition_accepts_unlisted_type:
  "proc_filesystems example_world = Inr example_filesystems \<and>
   \<not> spec_isSupported example_filesystems ''fat'' \<and>
   fst (findPartition example_world STBOOT ''fat'' ''boot'' (3 :: 64 word)) = None"
  by code_simp

lemma strings_HasPrefix_iff: "strings_HasPrefix s p \<longleftrightarrow> (\<exists>t. s = p @ t)"
proof
  assume "strings_HasPrefix s p"
  then have "s = p @ drop (length p) s"
    by (metis append_take_drop_id strings_HasPrefix_def)
  then show "\<exists>t. s = p @ t" ..
next
  assume "\<exists>t. s = p @ t"
  then show "strings_HasPrefix s p" by (auto simp: strings_HasPrefix_def)
qed

lemma strings_Contains_iff: "strings_Contains s sub \<longleftrightarrow> (\<exists>a b. s = a @ sub @ b)"
proof (induction s)
  case Nil
  then show ?case by auto
next
  case (Cons c s)
  show ?case
  proof
    assume "strings_Contains (c # s) sub"
    then consider "strings_HasPrefix (c # s) sub" | "strings_Contains s sub" by auto
    then show "\<exists>a b. c # s = a @ sub @ b"
    proof cases
      case 1
      then obtain t where "c # s = sub @ t" by (auto simp: strings_HasPrefix_iff)
      then have "c # s = [] @ sub @ t" by simp
      then show ?thesis by blast
    next
      case 2
      then obtain a b where "s = a @ sub @ b" using Cons.IH by blast
      then have "c # s = (c # a) @ sub @ b" by simp
      then show ?thesis by blast
    qed
  next
    assume "\<exists>a b. c # s = a @ sub @ b"
    then obtain a b where ab: "c # s = a @ sub @ b" by blast
    show "strings_Contains (c # s) sub"
    proof (cases a)
      case Nil
      with ab have "strings_HasPrefix (c # s) sub" by (auto simp: strings_HasPrefix_iff)
      then show ?thesis by simp
    next
      case (Cons x a')
      with ab have "s = a' @ sub @ b" by simp
      then have "strings_Contains s sub" using Cons.IH by blast
      then show ?thesis by simp
    qed
  qed
qed

lemma enumerate_loop_result:
  fixes K :: "'a::len word"
  shows "\<exists>ws. snd (enumerate_loop w k K tr) = tr @ ws \<and>
           count_list ws ReadFile_proc_filesystems = 0 \<and>
           fst (enumerate_loop w k K tr) \<noteq> Inl (ErrFilesystemUnknown x)"
proof (induction w k K tr rule: enumerate_loop.induct)
  case (1 w k timeout tr)
  show ?case
  proof (cases "getBlockDevs w k")
    case (Inl err)
    then show ?thesis by (subst (1 2) enumerate_loop.simps) simp
  next
    case (Inr devices)
    show ?thesis
    proof (cases "devices = []")
      case False
      with Inr show ?thesis by (subst (1 2) enumerate_loop.simps) simp
    next
      case True
      show ?thesis
      proof (cases "timeout = 0")
        case t: True
        with Inr True show ?thesis by (subst (1 2) enumerate_loop.simps) simp
      next
        case False
        let ?tr = "tr @ [Call_getBlockDevs, Debug_Waiting (unat timeout), Sleep_Second]"
        have st: "enumerate_loop w k timeout tr = enumerate_loop w (k + 1) (timeout - 1) ?tr"
          using Inr True False by (subst enumerate_loop.simps) simp
        from "1.IH" [OF Inr _ False] True obtain ws where
          ws: "snd (enumerate_loop w (k + 1) (timeout - 1) ?tr) = ?tr @ ws"
          "count_list ws ReadFile_proc_filesystems = 0"
          "fst (enumerate_loop w (k + 1) (timeout - 1) ?tr) \<noteq> Inl (ErrFilesystemUnknown x)"
          by auto
        show ?thesis unfolding st
          using ws by (intro exI [of _ "[Call_getBlockDevs, Debug_Waiting (unat timeout), Sleep_Second] @ ws"]) simp
      qed
    qed
  qed
qed

text \<open>
  Claim C6, amended.  \<open>findPartition\<close> reads the capability list first and exactly once,
  before any enumeration.  If the read fails, it returns the read error.  Otherwise it
  fails with the unknown-file-system error if and only if the type does not occur as a
  substring of the list's text, and then nothing else has been done.
\<close>

theorem findPartition_filesystem_check:
  fixes K :: "'a::len word"
  shows "(\<exists>rest. snd (findPartition w label fsType mountPoint K) =
                   [Debug_Search label, ReadFile_proc_filesystems] @ rest \<and>
                 count_list rest ReadFile_proc_filesystems = 0) \<and>
         (\<forall>err. proc_filesystems w = Inl err \<longrightarrow>
            findPartition w label fsType mountPoint K =
              (Some (ErrReadFile err), [Debug_Search label, ReadFile_proc_filesystems])) \<and>
         (\<forall>fs. proc_filesystems w = Inr fs \<longrightarrow>
            ((fst (findPartition w label fsType mountPoint K) = Some (ErrFilesystemUnknown fsType))
               = (\<not> (\<exists>a b. fs = a @ fsType @ b))) \<and>
            (\<not> (\<exists>a b. fs = a @ fsType @ b) \<longrightarrow>
               snd (findPartition w label fsType mountPoint K) =
                 [Debug_Search label, ReadFile_proc_filesystems]))"
proof -
  let ?tr0 = "[Debug_Search label, ReadFile_proc_filesystems]"
  let ?fp = "findPartition w label fsType mountPoint K"
  have early: "?fp = (Some (ErrReadFile err), ?tr0)" if "proc_filesystems w = Inl err" for err
    using that by (simp add: findPartition_def)
  have unknown: "?fp = (Some (ErrFilesystemUnknown fsType), ?tr0)"
    if "proc_filesystems w = Inr fs" "\<not> strings_Contains fs fsType" for fs
    using that by (simp add: findPartition_def)
  have later: "fst ?fp \<noteq> Some (ErrFilesystemUnknown fsType) \<and>
      (\<exists>rest. snd ?fp = ?tr0 @ rest \<and> count_list rest ReadFile_proc_filesystems = 0)"
    if fs: "proc_filesystems w = Inr fs" "strings_Contains fs fsType" for fs
  proof -
    obtain r tr1 where el: "enumerate_loop w 0 K ?tr0 = (r, tr1)"
      by (cases "enumerate_loop w 0 K ?tr0")
    from enumerate_loop_result [of w 0 K ?tr0 fsType] el obtain ws where
      ws: "tr1 = ?tr0 @ ws" "count_list ws ReadFile_proc_filesystems = 0"
          "r \<noteq> Inl (ErrFilesystemUnknown fsType)" by auto
    show ?thesis
    proof (cases r)
      case (Inl e)
      then have "?fp = (Some e, tr1)" using fs el by (simp add: findPartition_def)
      then show ?thesis using ws Inl by auto
    next
      case (Inr devices)
      from findPartition_after_enumeration [OF fs, of K label devices tr1 mountPoint] el Inr
      obtain rest where rest: "snd ?fp = tr1 @ rest" "count_list rest ReadFile_proc_filesystems = 0"
        by blast
      have f: "fst ?fp \<noteq> Some (ErrFilesystemUnknown fsType)"
        using fs el Inr by (simp add: findPartition_def Let_def split: prod.splits sum.splits)
      have "snd ?fp = ?tr0 @ (ws @ rest)" using rest ws by simp
      moreover have "count_list (ws @ rest) ReadFile_proc_filesystems = 0" using rest ws by simp
      ultimately show ?thesis using f by blast
    qed
  qed
  have first: "\<exists>rest. snd ?fp = ?tr0 @ rest \<and> count_list rest ReadFile_proc_filesystems = 0"
  proof (cases "proc_filesystems w")
    case (Inl err)
    from early [OF this] show ?thesis by simp
  next
    case (Inr fs)
    show ?thesis
    proof (cases "strings_Contains fs fsType")
      case True
      with later [OF Inr] show ?thesis by blast
    next
      case False
      from unknown [OF Inr this] show ?thesis by simp
    qed
  qed
  have third: "((fst ?fp = Some (ErrFilesystemUnknown fsType)) = (\<not> (\<exists>a b. fs = a @ fsType @ b))) \<and>
            (\<not> (\<exists>a b. fs = a @ fsType @ b) \<longrightarrow> snd ?fp = ?tr0)"
    if fs: "proc_filesystems w = Inr fs" for fs
  proof (cases "strings_Contains fs fsType")
    case True
    with later [OF fs] show ?thesis by (simp add: strings_Contains_iff)
  next
    case False
    with unknown [OF fs] show ?thesis by (simp add: strings_Contains_iff)
  qed
  from first early third show ?thesis by blast
qed

theorem findPartition_filesystem_check_witness:
  "proc_filesystems example_world = Inr example_filesystems \<and>
   (fst (findPartition example_world STBOOT ''ntfs'' ''boot'' (3 :: 64 word)) =
      Some (ErrFilesystemUnknown ''ntfs'')) \<and>
   \<not> (\<exists>a b. example_filesystems = a @ ''ntfs'' @ b) \<and>
   snd (findPartition example_world STBOOT ''ntfs'' ''boot'' (3 :: 64 word)) =
     [Debug_Search STBOOT, ReadFile_proc_filesystems]"
proof -
  have fs: "proc_filesystems example_world = Inr example_filesystems"
    by (simp add: example_world_def example_filesystems_def)
  have u: "fst (findPartition example_world STBOOT ''ntfs'' ''boot'' (3 :: 64 word)) =
      Some (ErrFilesystemUnknown ''ntfs'')"
    by code_simp
  from findPartition_filesystem_check [of example_world STBOOT "''ntfs''" "''boot''" "3 :: 64 word"]
    fs u show ?thesis by blast
qed

section \<open>Properties of the partition locator\<close>

lemma Itoa_not_Nil: "Itoa n \<noteq> []"
  by (subst Itoa.simps) simp

lemma partitions_loop_no_match:
  "\<forall>q\<in>set t. \<not> matches label q \<Longrightarrow>
   var_d (partitions_loop label device n t st) = var_d st \<and>
   var_p (partitions_loop label device n t st) = var_p st"
proof (induction t arbitrary: n st)
  case Nil
  then show ?case by simp
next
  case (Cons part rest)
  then have nm: "\<not> matches label part" and rest: "\<forall>q\<in>set rest. \<not> matches label q" by auto
  show ?case
  proof (cases "IsEmpty part")
    case True
    with Cons.IH [OF rest, of "n + 1" "emit (Debug_SkipEmpty device) st"]
    show ?thesis by (simp add: emit_simps)
  next
    case ne: False
    show ?thesis
    proof (cases "decodeLabel (PartNameUTF16 part)")
      case (Inl err)
      with ne Cons.IH [OF rest, of "n + 1" "emit (Debug_SkipPartition device (n + 1) err) st"]
      show ?thesis by (simp add: emit_simps)
    next
      case (Inr l)
      with nm ne have "l \<noteq> label" by (auto simp: matches_def)
      with Inr ne Cons.IH [OF rest, of "n + 1" "emit (Debug_NoMatch device (n + 1) label) st"]
      show ?thesis by (simp add: emit_simps)
    qed
  qed
qed

lemma partitions_loop_first_match:
  assumes "\<forall>q\<in>set tpre. \<not> matches label q" and "matches label part"
  shows "var_d (partitions_loop label device n (tpre @ part # tpost) st) = device \<and>
         var_p (partitions_loop label device n (tpre @ part # tpost) st) =
           Itoa (n + length tpre + 1) \<and>
         (\<exists>es. trace (partitions_loop label device n (tpre @ part # tpost) st) =
                 es @ [Info_Found device (Itoa (n + length tpre + 1))]) \<and>
         deferred (partitions_loop label device n (tpre @ part # tpost) st) = deferred st"
  using assms(1)
proof (induction tpre arbitrary: n st)
  case Nil
  with assms(2) show ?case by (simp add: matches_def emit_simps)
next
  case (Cons q rest)
  then have nm: "\<not> matches label q" and rest: "\<forall>q\<in>set rest. \<not> matches label q" by auto
  have idx: "n + 1 + length rest + 1 = n + length (q # rest) + 1" by simp
  show ?case
  proof (cases "IsEmpty q")
    case True
    with Cons.IH [OF rest, of "n + 1" "emit (Debug_SkipEmpty device) st"]
    show ?thesis unfolding idx by (simp add: emit_simps)
  next
    case ne: False
    show ?thesis
    proof (cases "decodeLabel (PartNameUTF16 q)")
      case (Inl err)
      with ne Cons.IH [OF rest, of "n + 1" "emit (Debug_SkipPartition device (n + 1) err) st"]
      show ?thesis unfolding idx by (simp add: emit_simps)
    next
      case (Inr l)
      with nm ne have "l \<noteq> label" by (auto simp: matches_def)
      with Inr ne Cons.IH [OF rest, of "n + 1" "emit (Debug_NoMatch device (n + 1) label) st"]
      show ?thesis unfolding idx by (simp add: emit_simps)
    qed
  qed
qed

lemma devices_loop_skip:
  assumes "table_of w device = None"
  shows "\<exists>st'. devices_loop w label (device # rest) st = devices_loop w label rest st' \<and>
           var_d st' = var_d st \<and> var_p st' = var_p st \<and>
           (\<exists>err. trace st' = trace st @ [Debug_SkipDevice device err] \<or>
                  trace st' = trace st @ [Open_ok device, Debug_SkipDevice device err])"
proof (cases "os_Open w device")
  case (Some err)
  then show ?thesis
    by (intro exI [of _ "emit (Debug_SkipDevice device err) st"]) (simp add: emit_simps)
next
  case None
  let ?st1 = "(emit (Open_ok device) st)\<lparr>deferred := device # deferred st\<rparr>"
  show ?thesis
  proof (cases "fd_Seek w device")
    case (Some err)
    with None show ?thesis
      by (intro exI [of _ "emit (Debug_SkipDevice device err) ?st1"]) (simp add: emit_simps)
  next
    case sn: None
    with None assms obtain err where "gpt_ReadTable w device = Inl err"
      by (auto simp: table_of_def split: sum.splits)
    with None sn show ?thesis
      by (intro exI [of _ "emit (Debug_SkipDevice device err) ?st1"]) (simp add: emit_simps)
  qed
qed

lemma devices_loop_table:
  assumes "table_of w device = Some t"
  shows "devices_loop w label (device # rest) st =
           (let st2 = partitions_loop label device 0 t
                        ((emit (Open_ok device) st)\<lparr>deferred := device # deferred st\<rparr>)
            in if found st2 then st2 else devices_loop w label rest st2)"
  using assms by (auto simp: table_of_def found_def Let_def split: option.splits sum.splits)

lemma partitions_loop_trace_mono:
  "e \<in> set (trace st) \<Longrightarrow> e \<in> set (trace (partitions_loop label device n t st))"
proof (induction t arbitrary: n st)
  case Nil
  then show ?case by simp
next
  case (Cons part rest)
  have "\<And>x. e \<in> set (trace (emit x st))" using Cons.prems by (simp add: emit_simps)
  then show ?case using Cons.IH by (auto simp: emit_simps split: sum.splits)
qed

lemma devices_loop_trace_mono:
  "e \<in> set (trace st) \<Longrightarrow> e \<in> set (trace (devices_loop w label devices st))"
proof (induction devices arbitrary: st)
  case Nil
  then show ?case by simp
next
  case (Cons device rest)
  show ?case
  proof (cases "table_of w device")
    case None
    from devices_loop_skip [OF None, of label rest st] obtain st' where
      "devices_loop w label (device # rest) st = devices_loop w label rest st'"
      "e \<in> set (trace st')" using Cons.prems by auto
    then show ?thesis using Cons.IH by simp
  next
    case (Some t)
    let ?st1 = "(emit (Open_ok device) st)\<lparr>deferred := device # deferred st\<rparr>"
    have "e \<in> set (trace ?st1)" using Cons.prems by (simp add: emit_simps)
    then have "e \<in> set (trace (partitions_loop label device 0 t ?st1))"
      by (rule partitions_loop_trace_mono)
    then show ?thesis unfolding devices_loop_table [OF Some] Let_def using Cons.IH by simp
  qed
qed

lemma devices_loop_no_match:
  assumes "\<forall>x\<in>set devices. \<forall>t. table_of w x = Some t \<longrightarrow> (\<forall>q\<in>set t. \<not> matches label q)"
  shows "var_d (devices_loop w label devices st) = var_d st \<and>
         var_p (devices_loop w label devices st) = var_p st \<and>
         (\<not> found st \<longrightarrow>
            (\<forall>x\<in>set devices. Open_ok x \<in> set (trace (devices_loop w label devices st)) \<or>
               (\<exists>err. Debug_SkipDevice x err \<in> set (trace (devices_loop w label devices st)))))"
  using assms
proof (induction devices arbitrary: st)
  case Nil
  then show ?case by simp
next
  case (Cons device rest)
  then have rest: "\<forall>x\<in>set rest. \<forall>t. table_of w x = Some t \<longrightarrow> (\<forall>q\<in>set t. \<not> matches label q)"
    by simp
  show ?case
  proof (cases "table_of w device")
    case None
    from devices_loop_skip [OF None, of label rest st] obtain st' err where
      st': "devices_loop w label (device # rest) st = devices_loop w label rest st'"
      "var_d st' = var_d st" "var_p st' = var_p st"
      "trace st' = trace st @ [Debug_SkipDevice device err] \<or>
       trace st' = trace st @ [Open_ok device, Debug_SkipDevice device err]" by blast
    then have "Debug_SkipDevice device err \<in> set (trace st')" by auto
    then have att: "Debug_SkipDevice device err \<in> set (trace (devices_loop w label rest st'))"
      by (rule devices_loop_trace_mono)
    have f: "found st' = found st" using st' by (simp add: found_def)
    from Cons.IH [OF rest, of st'] st' att f show ?thesis by auto
  next
    case (Some t)
    let ?st1 = "(emit (Open_ok device) st)\<lparr>deferred := device # deferred st\<rparr>"
    let ?st2 = "partitions_loop label device 0 t ?st1"
    from Cons.prems Some have "\<forall>q\<in>set t. \<not> matches label q" by simp
    from partitions_loop_no_match [OF this, of device 0 ?st1]
    have dp: "var_d ?st2 = var_d st" "var_p ?st2 = var_p st" by (simp_all add: emit_simps)
    then have f: "found ?st2 = found st" by (simp add: found_def)
    have "Open_ok device \<in> set (trace ?st1)" by (simp add: emit_simps)
    then have "Open_ok device \<in> set (trace ?st2)" by (rule partitions_loop_trace_mono)
    then have att: "Open_ok device \<in> set (trace (devices_loop w label rest ?st2))"
      by (rule devices_loop_trace_mono)
    show ?thesis
    proof (cases "found st")
      case True
      then show ?thesis unfolding devices_loop_table [OF Some] Let_def using f dp by simp
    next
      case False
      with f have nf: "\<not> found ?st2" by simp
      from Cons.IH [OF rest, of ?st2] dp att nf False
      show ?thesis unfolding devices_loop_table [OF Some] Let_def by auto
    qed
  qed
qed

lemma devices_loop_append:
  "\<not> found st \<Longrightarrow>
   devices_loop w label (pre @ xs) st =
     (let s = devices_loop w label pre st in if found s then s else devices_loop w label xs s)"
proof (induction pre arbitrary: st)
  case Nil
  then show ?case by simp
next
  case (Cons device rest)
  show ?case
  proof (cases "table_of w device")
    case None
    from devices_loop_skip [OF None, of label "rest @ xs" st] obtain st1 where
      a: "devices_loop w label (device # rest @ xs) st = devices_loop w label (rest @ xs) st1"
      "var_d st1 = var_d st" "var_p st1 = var_p st" by blast
    have step: "\<And>zs. devices_loop w label (device # zs) st = devices_loop w label zs
       (case os_Open w device of Some err \<Rightarrow> emit (Debug_SkipDevice device err) st
        | None \<Rightarrow> (case fd_Seek w device of
             Some err \<Rightarrow> emit (Debug_SkipDevice device err) ((emit (Open_ok device) st)\<lparr>deferred := device # deferred st\<rparr>)
           | None \<Rightarrow> (case gpt_ReadTable w device of Inl err \<Rightarrow> emit (Debug_SkipDevice device err) ((emit (Open_ok device) st)\<lparr>deferred := device # deferred st\<rparr>) | Inr t \<Rightarrow> st)))"
      using None by (auto simp: table_of_def split: option.splits sum.splits)
    let ?s = "(case os_Open w device of Some err \<Rightarrow> emit (Debug_SkipDevice device err) st
        | None \<Rightarrow> (case fd_Seek w device of
             Some err \<Rightarrow> emit (Debug_SkipDevice device err) ((emit (Open_ok device) st)\<lparr>deferred := device # deferred st\<rparr>)
           | None \<Rightarrow> (case gpt_ReadTable w device of Inl err \<Rightarrow> emit (Debug_SkipDevice device err) ((emit (Open_ok device) st)\<lparr>deferred := device # deferred st\<rparr>) | Inr t \<Rightarrow> st)))"
    have "\<not> found ?s" using Cons.prems
      by (auto simp: found_def emit_simps split: option.splits sum.splits)
    from Cons.IH [OF this] show ?thesis
      using step [of "rest @ xs"] step [of rest] by simp
  next
    case (Some t)
    let ?st2 = "partitions_loop label device 0 t ((emit (Open_ok device) st)\<lparr>deferred := device # deferred st\<rparr>)"
    show ?thesis
    proof (cases "found ?st2")
      case True
      then show ?thesis using devices_loop_table [OF Some, of label "rest @ xs" st]
          devices_loop_table [OF Some, of label rest st] by (simp add: Let_def)
    next
      case False
      from Cons.IH [OF False] show ?thesis
        using False devices_loop_table [OF Some, of label "rest @ xs" st]
          devices_loop_table [OF Some, of label rest st] by (simp add: Let_def)
    qed
  qed
qed

text \<open>
  Claim C4.  Let the empty path be one that cannot be opened.  If the device list is
  \<open>pre @ dev # post\<close>, no device of \<open>pre\<close> yields a table with an accepted entry, and
  the table of \<open>dev\<close> is \<open>tpre @ part # tpost\<close> with no accepted entry in \<open>tpre\<close> and
  \<open>part\<close> accepted (not flagged empty, decoded label equal to the target), then the scan
  ends with \<open>d = dev\<close> and \<open>p\<close> the decimal form of the 1-based index of \<open>part\<close>; its last
  effect is the message of that find, so nothing after the entry is looked at (the
  state is the one reached on \<open>pre @ [dev]\<close> alone); and the function's result is what
  the second loop makes of this pair.  If no device yields an accepted entry, every
  device is attempted and the result is the no-device error.
\<close>

theorem deviceByPartLabel_first_match:
  assumes "os_Open w [] \<noteq> None"
  shows "(\<forall>pre dev post tpre part tpost.
            devices = pre @ dev # post \<and>
            (\<forall>x\<in>set pre. \<forall>t. table_of w x = Some t \<longrightarrow> (\<forall>q\<in>set t. \<not> matches label q)) \<and>
            table_of w dev = Some (tpre @ part # tpost) \<and>
            (\<forall>q\<in>set tpre. \<not> matches label q) \<and> matches label part \<longrightarrow>
            var_d (devices_loop w label devices init_state) = dev \<and>
            var_p (devices_loop w label devices init_state) = Itoa (length tpre + 1) \<and>
            (\<exists>es. trace (devices_loop w label devices init_state) =
                    es @ [Info_Found dev (Itoa (length tpre + 1))]) \<and>
            devices_loop w label devices init_state =
              devices_loop w label (pre @ [dev]) init_state \<and>
            fst (deviceByPartLabel w devices label) =
              (case resolve_loop dev (Itoa (length tpre + 1)) devices of
                 Some device \<Rightarrow> Inr device
               | None \<Rightarrow> Inl (ErrCannotFindPartition (Itoa (length tpre + 1)) dev devices))) \<and>
         ((\<forall>x\<in>set devices. \<forall>t. table_of w x = Some t \<longrightarrow> (\<forall>q\<in>set t. \<not> matches label q)) \<longrightarrow>
            fst (deviceByPartLabel w devices label) = Inl (ErrNoDeviceLabeled label) \<and>
            (\<forall>x\<in>set devices. Open_ok x \<in> set (snd (deviceByPartLabel w devices label)) \<or>
               (\<exists>err. Debug_SkipDevice x err \<in> set (snd (deviceByPartLabel w devices label)))))"
proof (intro conjI allI impI)
  fix pre dev post tpre part tpost
  assume h: "devices = pre @ dev # post \<and>
            (\<forall>x\<in>set pre. \<forall>t. table_of w x = Some t \<longrightarrow> (\<forall>q\<in>set t. \<not> matches label q)) \<and>
            table_of w dev = Some (tpre @ part # tpost) \<and>
            (\<forall>q\<in>set tpre. \<not> matches label q) \<and> matches label part"
  let ?p = "Itoa (length tpre + 1)"
  let ?s = "devices_loop w label pre init_state"
  let ?st1 = "(emit (Open_ok dev) ?s)\<lparr>deferred := dev # deferred ?s\<rparr>"
  let ?st2 = "partitions_loop label dev 0 (tpre @ part # tpost) ?st1"
  from h have dv: "devices = pre @ dev # post"
    and npre: "\<forall>x\<in>set pre. \<forall>t. table_of w x = Some t \<longrightarrow> (\<forall>q\<in>set t. \<not> matches label q)"
    and tab: "table_of w dev = Some (tpre @ part # tpost)"
    and ntpre: "\<forall>q\<in>set tpre. \<not> matches label q" and m: "matches label part" by blast+
  have nf0: "\<not> found init_state" by (simp add: found_def init_state_def)
  from devices_loop_no_match [OF npre, of init_state]
  have "var_d ?s = []" "var_p ?s = []" by (simp_all add: init_state_def)
  then have nfs: "\<not> found ?s" by (simp add: found_def)
  have "os_Open w dev = None" using tab by (auto simp: table_of_def split: option.splits)
  with assms have dne: "dev \<noteq> []" by auto
  from partitions_loop_first_match [OF ntpre m, of dev 0 tpost ?st1] obtain es where
    st2: "var_d ?st2 = dev" "var_p ?st2 = ?p" "trace ?st2 = es @ [Info_Found dev ?p]" by auto
  have f2: "found ?st2" using st2 dne by (simp add: found_def Itoa_not_Nil)
  have one: "\<And>zs. devices_loop w label (dev # zs) ?s = ?st2"
    using devices_loop_table [OF tab, of label _ ?s] f2 by (simp add: Let_def)
  have all: "\<And>zs. devices_loop w label (pre @ dev # zs) init_state = ?st2"
    using devices_loop_append [OF nf0, of w label pre] nfs one by (simp add: Let_def)
  have fin: "devices_loop w label devices init_state = ?st2" unfolding dv by (rule all)
  show "var_d (devices_loop w label devices init_state) = dev" by (simp add: fin st2)
  show "var_p (devices_loop w label devices init_state) = ?p" by (simp add: fin st2)
  show "\<exists>es. trace (devices_loop w label devices init_state) = es @ [Info_Found dev ?p]"
    unfolding fin using st2(3) by blast
  show "devices_loop w label devices init_state = devices_loop w label (pre @ [dev]) init_state"
    unfolding fin using all [of "[]"] by simp
  show "fst (deviceByPartLabel w devices label) =
      (case resolve_loop dev ?p devices of Some device \<Rightarrow> Inr device
       | None \<Rightarrow> Inl (ErrCannotFindPartition ?p dev devices))"
    using st2(1,2) dne
    by (simp add: deviceByPartLabel_def Let_def fin Itoa_not_Nil split: option.splits)
next
  assume n: "\<forall>x\<in>set devices. \<forall>t. table_of w x = Some t \<longrightarrow> (\<forall>q\<in>set t. \<not> matches label q)"
  let ?s = "devices_loop w label devices init_state"
  have nf0: "\<not> found init_state" by (simp add: found_def init_state_def)
  from devices_loop_no_match [OF n, of init_state] nf0
  have dp: "var_d ?s = []" "var_p ?s = []"
    and att: "\<forall>x\<in>set devices. Open_ok x \<in> set (trace ?s) \<or> (\<exists>err. Debug_SkipDevice x err \<in> set (trace ?s))"
    by (simp_all add: init_state_def)
  show "fst (deviceByPartLabel w devices label) = Inl (ErrNoDeviceLabeled label)"
    using dp by (simp add: deviceByPartLabel_def Let_def)
  show "\<forall>x\<in>set devices. Open_ok x \<in> set (snd (deviceByPartLabel w devices label)) \<or>
               (\<exists>err. Debug_SkipDevice x err \<in> set (snd (deviceByPartLabel w devices label)))"
    using att by (auto simp: deviceByPartLabel_def Let_def)
qed

theorem deviceByPartLabel_first_match_witness:
  "os_Open example_world [] \<noteq> None \<and>
   table_of example_world ''/dev/sdb'' = None \<and>
   table_of example_world ''/dev/sda'' = Some example_table \<and>
   \<not> matches STDATA (example_table ! 0) \<and> matches STDATA (example_table ! 1) \<and>
   var_d (devices_loop example_world STDATA
            [''/dev/sdb'', ''/dev/sda'', ''/dev/sda1'', ''/dev/sda2''] init_state) = ''/dev/sda'' \<and>
   var_p (devices_loop example_world STDATA
            [''/dev/sdb'', ''/dev/sda'', ''/dev/sda1'', ''/dev/sda2''] init_state) = ''2'' \<and>
   fst (deviceByPartLabel example_world
          [''/dev/sdb'', ''/dev/sda'', ''/dev/sda1'', ''/dev/sda2''] STDATA) = Inr ''/dev/sda2'' \<and>
   table_of example_world ''/dev/sdc'' = None \<and>
   fst (deviceByPartLabel example_world [''/dev/sdb'', ''/dev/sdc''] STDATA) =
     Inl (ErrNoDeviceLabeled STDATA)"
proof -
  let ?w = example_world
  let ?p0 = "\<lparr>IsEmpty = False, PartNameUTF16 = name_field STBOOT\<rparr>"
  let ?p1 = "\<lparr>IsEmpty = False, PartNameUTF16 = name_field STDATA\<rparr>"
  let ?p2 = "\<lparr>IsEmpty = True, PartNameUTF16 = replicate 72 0\<rparr>"
  let ?devs = "[''/dev/sdb'', ''/dev/sda'', ''/dev/sda1'', ''/dev/sda2'']"
  have o: "os_Open ?w [] \<noteq> None" by (simp add: example_world_def)
  have tb: "table_of ?w ''/dev/sdb'' = None" by (simp add: table_of_def example_world_def)
  have tc: "table_of ?w ''/dev/sdc'' = None" by (simp add: table_of_def example_world_def)
  have ta: "table_of ?w ''/dev/sda'' = Some example_table"
    by (simp add: table_of_def example_world_def)
  have et: "example_table = [?p0] @ ?p1 # [?p2]" by (simp add: example_table_def)
  have m0: "\<not> matches STDATA ?p0" by code_simp
  have m1: "matches STDATA ?p1" by code_simp
  have i2: "Itoa (length [?p0] + 1) = ''2''" by code_simp
  have rs: "resolve_loop ''/dev/sda'' ''2'' ?devs = Some ''/dev/sda2''" by code_simp
  have h: "?devs = [''/dev/sdb''] @ ''/dev/sda'' # [''/dev/sda1'', ''/dev/sda2''] \<and>
     (\<forall>x\<in>set [''/dev/sdb'']. \<forall>t. table_of ?w x = Some t \<longrightarrow> (\<forall>q\<in>set t. \<not> matches STDATA q)) \<and>
     table_of ?w ''/dev/sda'' = Some ([?p0] @ ?p1 # [?p2]) \<and>
     (\<forall>q\<in>set [?p0]. \<not> matches STDATA q) \<and> matches STDATA ?p1"
    using tb ta m0 m1 et by simp
  note t1 = deviceByPartLabel_first_match [OF o, where devices = ?devs and label = STDATA,
      THEN conjunct1, THEN spec, THEN spec, THEN spec, THEN spec, THEN spec, THEN spec,
      THEN mp, OF h]
  have n: "\<forall>x\<in>set [''/dev/sdb'', ''/dev/sdc'']. \<forall>t. table_of ?w x = Some t \<longrightarrow>
             (\<forall>q\<in>set t. \<not> matches STDATA q)"
    using tb tc by simp
  note t2 = deviceByPartLabel_first_match [OF o, where devices = "[''/dev/sdb'', ''/dev/sdc'']"
      and label = STDATA, THEN conjunct2, THEN mp, OF n]
  have a: "var_d (devices_loop ?w STDATA ?devs init_state) = ''/dev/sda''" using t1 [THEN conjunct1] .
  have b: "var_p (devices_loop ?w STDATA ?devs init_state) = ''2''" using t1 [THEN conjunct2, THEN conjunct1] by (simp only: i2)
  have c: "fst (deviceByPartLabel ?w ?devs STDATA) = Inr ''/dev/sda2''"
    using t1 [THEN conjunct2, THEN conjunct2, THEN conjunct2, THEN conjunct2]
    by (simp only: i2 rs option.case)
  have d: "fst (deviceByPartLabel ?w [''/dev/sdb'', ''/dev/sdc''] STDATA) =
     Inl (ErrNoDeviceLabeled STDATA)" using t2 [THEN conjunct1] .
  have e0: "\<not> matches STDATA (example_table ! 0)" using m0 by (simp add: example_table_def)
  have e1: "matches STDATA (example_table ! 1)" using m1 by (simp add: example_table_def)
  from o tb ta e0 e1 a b c tc d show ?thesis by blast
qed

section \<open>Properties of the path resolver\<close>

lemma resolve_condition_iff:
  "strings_HasPrefix x d \<and> strings_Contains (strings_TrimPrefix x d) p \<longleftrightarrow>
   (\<exists>sfx a b. x = d @ sfx \<and> sfx = a @ p @ b)"
proof
  assume h: "strings_HasPrefix x d \<and> strings_Contains (strings_TrimPrefix x d) p"
  then obtain t where t: "x = d @ t" by (auto simp: strings_HasPrefix_iff)
  with h have "strings_TrimPrefix x d = t" by (simp add: strings_TrimPrefix_def)
  with h obtain a b where "t = a @ p @ b" by (auto simp: strings_Contains_iff)
  with t show "\<exists>sfx a b. x = d @ sfx \<and> sfx = a @ p @ b" by blast
next
  assume "\<exists>sfx a b. x = d @ sfx \<and> sfx = a @ p @ b"
  then obtain sfx a b where s: "x = d @ sfx" "sfx = a @ p @ b" by blast
  then have hp: "strings_HasPrefix x d" by (auto simp: strings_HasPrefix_iff)
  with s have "strings_TrimPrefix x d = sfx" by (simp add: strings_TrimPrefix_def)
  with s have "strings_Contains (strings_TrimPrefix x d) p" by (auto simp: strings_Contains_iff)
  with hp show "strings_HasPrefix x d \<and> strings_Contains (strings_TrimPrefix x d) p" by simp
qed

lemma resolve_loop_find:
  "resolve_loop d p devices =
     List.find (\<lambda>x. strings_HasPrefix x d \<and> strings_Contains (strings_TrimPrefix x d) p) devices"
  by (induction devices) (auto simp: Let_def)

lemma resolve_loop_Some_iff:
  "resolve_loop d p devices = Some dev \<longleftrightarrow>
     (\<exists>pre post. devices = pre @ dev # post \<and>
        (\<exists>sfx a b. dev = d @ sfx \<and> sfx = a @ p @ b) \<and>
        (\<forall>x\<in>set pre. \<not> (\<exists>sfx a b. x = d @ sfx \<and> sfx = a @ p @ b)))"
proof -
  let ?P = "\<lambda>x. strings_HasPrefix x d \<and> strings_Contains (strings_TrimPrefix x d) p"
  have "resolve_loop d p devices = Some dev \<longleftrightarrow>
        (\<exists>i<length devices. ?P (devices ! i) \<and> dev = devices ! i \<and> (\<forall>j<i. \<not> ?P (devices ! j)))"
    unfolding resolve_loop_find by (rule find_Some_iff)
  also have "\<dots> \<longleftrightarrow> (\<exists>pre post. devices = pre @ dev # post \<and> ?P dev \<and> (\<forall>x\<in>set pre. \<not> ?P x))"
  proof
    assume "\<exists>i<length devices. ?P (devices ! i) \<and> dev = devices ! i \<and> (\<forall>j<i. \<not> ?P (devices ! j))"
    then obtain i where i: "i < length devices" "?P (devices ! i)" "dev = devices ! i"
      "\<forall>j<i. \<not> ?P (devices ! j)" by blast
    have sp: "devices = take i devices @ dev # drop (Suc i) devices"
      using i(1,3) by (simp add: id_take_nth_drop)
    have "\<forall>x\<in>set (take i devices). \<not> ?P x"
    proof
      fix x assume "x \<in> set (take i devices)"
      then obtain j where "j < length (take i devices)" "x = take i devices ! j"
        by (metis in_set_conv_nth)
      then have "j < i" "x = devices ! j" by simp_all
      with i(4) show "\<not> ?P x" by simp
    qed
    with sp i(2,3) show "\<exists>pre post. devices = pre @ dev # post \<and> ?P dev \<and> (\<forall>x\<in>set pre. \<not> ?P x)"
      by blast
  next
    assume "\<exists>pre post. devices = pre @ dev # post \<and> ?P dev \<and> (\<forall>x\<in>set pre. \<not> ?P x)"
    then obtain pre post where pp: "devices = pre @ dev # post" "?P dev" "\<forall>x\<in>set pre. \<not> ?P x"
      by blast
    have "length pre < length devices" using pp(1) by simp
    moreover have "devices ! length pre = dev" using pp(1) by simp
    moreover have "\<forall>j<length pre. \<not> ?P (devices ! j)"
      using pp(1,3) by (simp add: nth_append)
    ultimately show "\<exists>i<length devices. ?P (devices ! i) \<and> dev = devices ! i \<and> (\<forall>j<i. \<not> ?P (devices ! j))"
      using pp(2) by blast
  qed
  finally show ?thesis by (simp only: resolve_condition_iff)
qed

lemma resolve_loop_None_iff:
  "resolve_loop d p devices = None \<longleftrightarrow>
     (\<forall>x\<in>set devices. \<not> (\<exists>sfx a b. x = d @ sfx \<and> sfx = a @ p @ b))"
  unfolding resolve_loop_find find_None_iff resolve_condition_iff by blast

text \<open>
  Claim C5.  The second loop of \<open>deviceByPartLabel\<close> returns the first entry of the
  device list that begins with the base path \<open>d\<close> and whose remainder contains the
  string \<open>p\<close>; it finds none exactly when no entry is of that form.  Once the scan has
  found its pair, \<open>deviceByPartLabel\<close> returns that entry, or else the error that the
  partition cannot be found.  For the devices \<open>/dev/sda\<close>, \<open>/dev/sda1\<close>, \<open>/dev/sda2\<close>, the
  base \<open>/dev/sda\<close> and the index 2 the entry is \<open>/dev/sda2\<close>.
\<close>

theorem resolve_loop_first_entry:
  "(resolve_loop d p devices = Some dev \<longleftrightarrow>
      (\<exists>pre post. devices = pre @ dev # post \<and>
         (\<exists>sfx a b. dev = d @ sfx \<and> sfx = a @ p @ b) \<and>
         (\<forall>x\<in>set pre. \<not> (\<exists>sfx a b. x = d @ sfx \<and> sfx = a @ p @ b)))) \<and>
   (resolve_loop d p devices = None \<longleftrightarrow>
      (\<forall>x\<in>set devices. \<not> (\<exists>sfx a b. x = d @ sfx \<and> sfx = a @ p @ b))) \<and>
   (found (devices_loop w label devices init_state) \<longrightarrow>
      fst (deviceByPartLabel w devices label) =
        (case resolve_loop (var_d (devices_loop w label devices init_state))
                (var_p (devices_loop w label devices init_state)) devices of
           Some device \<Rightarrow> Inr device
         | None \<Rightarrow>
             Inl (ErrCannotFindPartition (var_p (devices_loop w label devices init_state))
                    (var_d (devices_loop w label devices init_state)) devices))) \<and>
   resolve_loop ''/dev/sda'' (Itoa 2) [''/dev/sda'', ''/dev/sda1'', ''/dev/sda2''] =
     Some ''/dev/sda2''"
proof (intro conjI)
  show "resolve_loop ''/dev/sda'' (Itoa 2) [''/dev/sda'', ''/dev/sda1'', ''/dev/sda2''] =
     Some ''/dev/sda2''" by code_simp
qed (simp_all add: resolve_loop_Some_iff resolve_loop_None_iff deviceByPartLabel_def Let_def found_def)

theorem resolve_loop_first_entry_witness:
  "resolve_loop ''/dev/sda'' ''1'' [''/dev/sda'', ''/dev/sda11'', ''/dev/sda1''] = Some ''/dev/sda11'' \<and>
   (\<exists>pre post. [''/dev/sda'', ''/dev/sda11'', ''/dev/sda1''] = pre @ ''/dev/sda11'' # post \<and>
      (\<exists>sfx a b. ''/dev/sda11'' = ''/dev/sda'' @ sfx \<and> sfx = a @ ''1'' @ b) \<and>
      (\<forall>x\<in>set pre. \<not> (\<exists>sfx a b. x = ''/dev/sda'' @ sfx \<and> sfx = a @ ''1'' @ b))) \<and>
   resolve_loop ''/dev/sda'' ''3'' [''/dev/sda'', ''/dev/sda11'', ''/dev/sda1''] = None \<and>
   \<not> (\<exists>sfx a b. ''/dev/sda1'' = ''/dev/sda'' @ sfx \<and> sfx = a @ ''3'' @ b) \<and>
   found (devices_loop example_world STDATA [''/dev/sda'', ''/dev/sda1'', ''/dev/sda2''] init_state) \<and>
   fst (deviceByPartLabel example_world [''/dev/sda'', ''/dev/sda1'', ''/dev/sda2''] STDATA) =
     Inr ''/dev/sda2''"
proof -
  let ?ds = "[''/dev/sda'', ''/dev/sda11'', ''/dev/sda1'']"
  let ?es = "[''/dev/sda'', ''/dev/sda1'', ''/dev/sda2'']"
  have a: "resolve_loop ''/dev/sda'' ''1'' ?ds = Some ''/dev/sda11''" by code_simp
  have b: "resolve_loop ''/dev/sda'' ''3'' ?ds = None" by code_simp
  have f: "found (devices_loop example_world STDATA ?es init_state)" by code_simp
  have r: "fst (deviceByPartLabel example_world ?es STDATA) = Inr ''/dev/sda2''" by code_simp
  note t = resolve_loop_first_entry [of "''/dev/sda''" "''1''" ?ds "''/dev/sda11''" example_world STDATA]
  note u = resolve_loop_first_entry [of "''/dev/sda''" "''3''" ?ds "''/dev/sda11''" example_world STDATA]
  have a': "\<exists>pre post. ?ds = pre @ ''/dev/sda11'' # post \<and>
      (\<exists>sfx a b. ''/dev/sda11'' = ''/dev/sda'' @ sfx \<and> sfx = a @ ''1'' @ b) \<and>
      (\<forall>x\<in>set pre. \<not> (\<exists>sfx a b. x = ''/dev/sda'' @ sfx \<and> sfx = a @ ''1'' @ b))"
    using t [THEN conjunct1] a by blast
  have "\<forall>x\<in>set ?ds. \<not> (\<exists>sfx a b. x = ''/dev/sda'' @ sfx \<and> sfx = a @ ''3'' @ b)"
    using u [THEN conjunct2, THEN conjunct1] b by blast
  then have b': "\<not> (\<exists>sfx a b. ''/dev/sda1'' = ''/dev/sda'' @ sfx \<and> sfx = a @ ''3'' @ b)"
    by simp
  from a a' b b' f r show ?thesis by blast
qed

section \<open>Failures during the scan\<close>











section \<open>Inspection handles\<close>

lemma devices_loop_no_close:
  "Close_fd x \<notin> set (trace (devices_loop w label devices init_state))"
  using devices_loop_events [of "Close_fd x" w label devices init_state]
  by (auto simp: init_state_def)

text \<open>
  No handle is closed while the first loop runs: the closes are the last effects of
  \<open>deviceByPartLabel\<close>, one for each device that was opened.
\<close>

lemma deviceByPartLabel_closes_last:
  "\<exists>scan. snd (deviceByPartLabel w devices label) =
            scan @ map Close_fd (deferred (devices_loop w label devices init_state)) \<and>
          (\<forall>x. Close_fd x \<notin> set scan)"
  by (intro exI [of _ "trace (devices_loop w label devices init_state)"])
     (simp add: deviceByPartLabel_def Let_def devices_loop_no_close)

text \<open>
  Claim C9.  The claim says that the handle of one device is closed before the scan
  moves to the next, so that at most one is open at a time.  \<open>defer fd.Close()\<close> inside
  the loop postpones every close to the return of \<open>deviceByPartLabel\<close>.  On two devices
  that can be opened and hold no GPT, \<open>/dev/sdb\<close> is still open when \<open>/dev/sdc\<close> is
  opened; both are closed only after the scan, and two handles are open at once.
\<close>

theorem deviceByPartLabel_handles_stay_open:
  "snd (deviceByPartLabel example_world [''/dev/sdb'', ''/dev/sdc''] STBOOT) =
     [Open_ok ''/dev/sdb'', Debug_SkipDevice ''/dev/sdb'' (IOErr 1),
      Open_ok ''/dev/sdc'', Debug_SkipDevice ''/dev/sdc'' (IOErr 1),
      Close_fd ''/dev/sdc'', Close_fd ''/dev/sdb''] \<and>
   handles_peak 0 (snd (deviceByPartLabel example_world [''/dev/sdb'', ''/dev/sdc''] STBOOT)) = 2"
  by code_simp

section \<open>The round trip of the label codec\<close>

lemma byte_3F: "(0x3F :: byte) = mask 6" by (simp add: mask_eq_exp_minus_1)

lemma byte_1F: "(0x1F :: byte) = mask 5" by (simp add: mask_eq_exp_minus_1)

lemma byte_0F: "(0x0F :: byte) = mask 4" by (simp add: mask_eq_exp_minus_1)

lemma byte_C0: "(0xC0 :: byte) = push_bit 6 (mask 2)" by (simp add: mask_eq_exp_minus_1)

lemma byte_E0: "(0xE0 :: byte) = push_bit 5 (mask 3)" by (simp add: mask_eq_exp_minus_1)

lemma byte_F0: "(0xF0 :: byte) = push_bit 4 (mask 4)" by (simp add: mask_eq_exp_minus_1)

lemma bit_80: "bit (0x80 :: 'a::len word) n \<longleftrightarrow> n = 7 \<and> 7 < LENGTH('a)"
proof -
  have "(0x80 :: 'a word) = 2 ^ 7" by simp
  then show ?thesis by (simp only: bit_exp_iff) (auto simp: possible_bit_word)
qed

lemma bit_80_int: "bit (128 :: int) n \<longleftrightarrow> n = 7"
proof -
  have "(128 :: int) = 2 ^ 7" by simp
  then show ?thesis by (simp only: bit_exp_iff) auto
qed

lemma small_bits:
  fixes r :: rune
  assumes "r < 2 ^ k" and "bit r n"
  shows "n < k"
proof -
  from assms(1) have "r AND mask k = r" by (rule less_mask_eq)
  from assms(2) have "bit (r AND mask k) n" unfolding \<open>r AND mask k = r\<close> .
  then show ?thesis by (simp add: bit_and_iff bit_mask_iff)
qed

text \<open>One byte: a code point below \<open>0x80\<close>.\<close>

lemma one_byte:
  fixes r :: rune
  assumes "r < 2 ^ 7"
  shows "(ucast r :: byte) AND 0x80 = 0" and "ucast (ucast r :: byte) = r"
  by (rule bit_word_eqI; auto simp: bit_simps bit_80 bit_80_int dest: small_bits [OF assms])+

text \<open>The continuation byte built from the low six bits of a value.\<close>

lemma cont_byte: "(0x80 OR (ucast x AND 0x3F) :: byte) AND 0xC0 = 0x80" for x :: rune
  unfolding byte_C0 byte_3F
  by (rule bit_word_eqI) (auto simp: bit_simps bit_80 bit_80_int)

lemma cont_value:
  "ucast ((0x80 OR (ucast x AND 0x3F) :: byte) AND 0x3F) = (take_bit 6 x :: rune)" for x :: rune
  unfolding byte_3F
  by (rule bit_word_eqI) (auto simp: bit_simps bit_80 bit_80_int)

text \<open>Two bytes: a code point below \<open>0x800\<close>.\<close>

lemma two_lead:
  fixes r :: rune
  assumes "r < 2 ^ 11"
  shows "(0xC0 OR ucast (drop_bit 6 r) :: byte) AND 0x80 = 0x80"
    and "(0xC0 OR ucast (drop_bit 6 r) :: byte) AND 0xE0 = 0xC0"
    and "ucast ((0xC0 OR ucast (drop_bit 6 r) :: byte) AND 0x1F) = (take_bit 5 (drop_bit 6 r) :: rune)"
  unfolding byte_C0 byte_E0 byte_1F
  by (rule bit_word_eqI; auto simp: bit_simps bit_80 bit_80_int dest: small_bits [OF assms])+

lemma two_join:
  fixes r :: rune
  assumes "r < 2 ^ 11"
  shows "push_bit 6 (take_bit 5 (drop_bit 6 r)) OR take_bit 6 r = r"
proof (rule bit_word_eqI)
  fix n assume "n < LENGTH(32)"
  show "bit (push_bit 6 (take_bit 5 (drop_bit 6 r)) OR take_bit 6 r) n = bit r n"
    by (cases "6 \<le> n") (auto simp: bit_simps dest: small_bits [OF assms])
qed

text \<open>Three bytes: a code point below \<open>0x10000\<close>.\<close>

lemma three_lead:
  fixes r :: rune
  assumes "r < 2 ^ 16"
  shows "(0xE0 OR ucast (drop_bit 12 r) :: byte) AND 0x80 = 0x80"
    and "(0xE0 OR ucast (drop_bit 12 r) :: byte) AND 0xE0 = 0xE0"
    and "(0xE0 OR ucast (drop_bit 12 r) :: byte) AND 0xF0 = 0xE0"
    and "ucast ((0xE0 OR ucast (drop_bit 12 r) :: byte) AND 0x0F) = drop_bit 12 r"
  unfolding byte_E0 byte_F0 byte_0F
  by (rule bit_word_eqI; auto simp: bit_simps bit_80 bit_80_int dest: small_bits [OF assms])+

lemma three_join:
  fixes r :: rune
  shows "push_bit 12 (drop_bit 12 r) OR push_bit 6 (take_bit 6 (drop_bit 6 r)) OR take_bit 6 r = r"
proof (rule bit_word_eqI)
  fix n assume n: "n < LENGTH(32)"
  show "bit (push_bit 12 (drop_bit 12 r) OR push_bit 6 (take_bit 6 (drop_bit 6 r)) OR
             take_bit 6 r) n = bit r n"
    using n by (cases "12 \<le> n"; cases "6 \<le> n") (auto simp: bit_simps)
qed

lemma decode1_encode:
  fixes r :: rune
  assumes lt: "r < 2 ^ 16" and ns: "r < surr1 \<or> surr3 \<le> r"
  shows "spec_utf8_decode1 (utf8_EncodeRune r @ rest) = (r, length (utf8_EncodeRune r))"
proof -
  consider "r \<le> 0x7F" | "\<not> r \<le> 0x7F" "r \<le> 0x7FF" | "\<not> r \<le> 0x7FF" by blast
  then show ?thesis
  proof cases
    case 1
    then have s: "r < 2 ^ 7" by (simp add: word_le_nat_alt word_less_nat_alt)
    from 1 show ?thesis
      by (simp add: utf8_EncodeRune_def spec_utf8_decode1_def one_byte [OF s])
  next
    case 2
    then have s: "r < 2 ^ 11" by (simp add: word_le_nat_alt word_less_nat_alt)
    from 2 have ge: "0x80 \<le> r" by (simp add: word_le_nat_alt)
    let ?b0 = "0xC0 OR ucast (drop_bit 6 r) :: byte"
    let ?b1 = "0x80 OR (ucast r AND 0x3F) :: byte"
    have e: "utf8_EncodeRune r = [?b0, ?b1]" using 2 by (simp add: utf8_EncodeRune_def)
    have l: "?b0 AND 0x80 \<noteq> 0" by (simp only: two_lead(1) [OF s]) simp
    have v: "push_bit 6 (ucast (?b0 AND 0x1F)) OR ucast (?b1 AND 0x3F) = r"
      by (simp only: two_lead(3) [OF s] cont_value two_join [OF s])
    have d: "spec_dec2 (?b0 # ?b1 # rest) = Some r"
      unfolding spec_dec2_def list.case Let_def v is_cont_def
      using ge by (simp only: two_lead(2) [OF s] cont_byte) simp
    show ?thesis unfolding e using l d by (simp add: spec_utf8_decode1_def)
  next
    case 3
    then have ge: "0x800 \<le> r" by (simp add: word_le_nat_alt)
    from 3 have n7: "\<not> r \<le> 0x7F" by (simp add: word_le_nat_alt)
    from lt have le: "r \<le> 0xFFFF" by (simp add: word_le_nat_alt word_less_nat_alt)
    from lt have mr: "\<not> MaxRune < r" by (simp add: MaxRune_def word_less_nat_alt)
    from ns have su: "\<not> (0xD800 \<le> r \<and> r \<le> 0xDFFF)"
      by (auto simp: surr1_def surr3_def word_le_nat_alt word_less_nat_alt)
    let ?b0 = "0xE0 OR ucast (drop_bit 12 r) :: byte"
    let ?b1 = "0x80 OR (ucast (drop_bit 6 r) AND 0x3F) :: byte"
    let ?b2 = "0x80 OR (ucast r AND 0x3F) :: byte"
    have e: "utf8_EncodeRune r = [?b0, ?b1, ?b2]"
      using 3 n7 le mr su by (auto simp: utf8_EncodeRune_def enc3_def)
    have l: "?b0 AND 0x80 \<noteq> 0" by (simp only: three_lead(1) [OF lt]) simp
    have d2: "spec_dec2 (?b0 # ?b1 # ?b2 # rest) = None"
      unfolding spec_dec2_def list.case Let_def
      by (simp only: three_lead(2) [OF lt]) simp
    have v: "push_bit 12 (ucast (?b0 AND 0x0F)) OR push_bit 6 (ucast (?b1 AND 0x3F)) OR
             ucast (?b2 AND 0x3F) = r"
      by (simp only: three_lead(4) [OF lt] cont_value three_join)
    have d3: "spec_dec3 (?b0 # ?b1 # ?b2 # rest) = Some r"
      unfolding spec_dec3_def list.case Let_def v is_cont_def
      using ge ns by (simp only: three_lead(3) [OF lt] cont_byte) simp
    show ?thesis unfolding e using l d2 d3 by (simp add: spec_utf8_decode1_def)
  qed
qed

lemma utf8_EncodeRune_not_Nil: "utf8_EncodeRune r \<noteq> []"
  by (simp add: utf8_EncodeRune_def enc3_def)

lemma ucast_unit_less: "(ucast u :: rune) < 2 ^ 16" for u :: uint16
proof -
  have "unat (ucast u :: rune) = take_bit 32 (unat u)" by (simp add: unsigned_ucast_eq)
  also have "\<dots> = unat u"
    by (rule take_bit_nat_eq_self) (use unsigned_less [of u, where 'a = nat] in simp)
  finally have "unat (ucast u :: rune) < 2 ^ 16" using unsigned_less [of u, where 'a = nat] by simp
  then show ?thesis by (simp add: word_less_nat_alt)
qed

lemma unit_utf8_plain: "\<not> is_surrogate u \<Longrightarrow> unit_utf8 u = utf8_EncodeRune (ucast u)"
  by (auto simp: unit_utf8_def is_surrogate_def)

lemma spec_utf8_runes_units:
  "\<forall>u\<in>set us. \<not> is_surrogate u \<Longrightarrow>
   spec_utf8_runes (concat (map unit_utf8 us)) = map ucast us"
proof (induction us)
  case Nil
  then show ?case by (simp add: spec_utf8_runes.simps)
next
  case (Cons u us)
  let ?r = "ucast u :: rune"
  let ?rest = "concat (map unit_utf8 us)"
  from Cons.prems have ns: "\<not> is_surrogate u" by simp
  then have ns': "?r < surr1 \<or> surr3 \<le> ?r" by (auto simp: is_surrogate_def)
  have d: "spec_utf8_decode1 (utf8_EncodeRune ?r @ ?rest) = (?r, length (utf8_EncodeRune ?r))"
    using ucast_unit_less ns' by (rule decode1_encode)
  have "spec_utf8_runes (utf8_EncodeRune ?r @ ?rest) = ?r # spec_utf8_runes ?rest"
    by (subst spec_utf8_runes.simps) (simp add: d utf8_EncodeRune_not_Nil)
  then show ?case using Cons ns by (simp add: unit_utf8_plain)
qed

lemma spec_utf16_encode_units:
  "\<forall>u\<in>set us. \<not> is_surrogate u \<Longrightarrow> spec_utf16_encode (map ucast us) = us"
proof (induction us)
  case Nil
  then show ?case by (simp add: spec_utf16_encode_def)
next
  case (Cons u us)
  let ?r = "ucast u :: rune"
  from Cons.prems have "?r < surr1 \<or> surr3 \<le> ?r" by (auto simp: is_surrogate_def)
  moreover have "?r < surrSelf" using ucast_unit_less [of u] by (simp add: surrSelf_def)
  ultimately have "spec_utf16_encode1 ?r = [ucast ?r]" by (simp add: spec_utf16_encode1_def)
  moreover have "ucast ?r = u" by (simp add: ucast_up_ucast_id is_up)
  ultimately show ?case using Cons by (simp add: spec_utf16_encode_def)
qed

lemma utf8_EncodeRune_ends:
  fixes r :: rune
  assumes "r \<noteq> 0"
  shows "hd (utf8_EncodeRune r) \<noteq> 0 \<and> last (utf8_EncodeRune r) \<noteq> 0"
proof (cases "r \<le> 0x7F")
  case True
  then have s: "r < 2 ^ 7" by (simp add: word_le_nat_alt word_less_nat_alt)
  have "(ucast r :: byte) \<noteq> 0"
  proof
    assume "(ucast r :: byte) = 0"
    then have "ucast (ucast r :: byte) = (0 :: rune)" by simp
    with one_byte(2) [OF s] assms show False by simp
  qed
  with True show ?thesis by (simp add: utf8_EncodeRune_def)
next
  case False
  then show ?thesis by (simp add: utf8_EncodeRune_def enc3_def or_eq_0_iff)
qed

lemma unit_utf8_zero: "unit_utf8 0 = [0]"
  by (simp add: unit_utf8_def utf8_EncodeRune_def surr1_def)

lemma unit_utf8_ends:
  assumes "u \<noteq> 0"
  shows "unit_utf8 u \<noteq> [] \<and> hd (unit_utf8 u) \<noteq> 0 \<and> last (unit_utf8 u) \<noteq> 0"
proof -
  let ?r = "if ucast u < surr1 \<or> surr3 \<le> ucast u then ucast u else RuneError :: rune"
  have "(ucast u :: rune) \<noteq> 0"
  proof
    assume "(ucast u :: rune) = 0"
    then have "(ucast (ucast u :: rune) :: uint16) = 0" by simp
    then show False using assms by (simp add: ucast_up_ucast_id is_up)
  qed
  then have "?r \<noteq> 0" by (simp add: RuneError_def)
  from utf8_EncodeRune_ends [OF this] utf8_EncodeRune_not_Nil [of ?r]
  show ?thesis by (simp add: unit_utf8_def)
qed

lemma dropWhile_concat_units:
  fixes f :: "uint16 \<Rightarrow> byte list"
  assumes z: "f 0 = [0]" and nz: "\<And>u. u \<noteq> 0 \<Longrightarrow> f u \<noteq> [] \<and> hd (f u) \<noteq> 0"
  shows "dropWhile (\<lambda>x. x = 0) (concat (map f us)) =
         concat (map f (dropWhile (\<lambda>u. u = 0) us))"
proof (induction us)
  case Nil
  then show ?case by simp
next
  case (Cons u us)
  show ?case
  proof (cases "u = 0")
    case True
    then show ?thesis using Cons z by simp
  next
    case False
    from nz [OF False] obtain h t where ht: "f u = h # t" "h \<noteq> 0" by (cases "f u") auto
    then show ?thesis using False by simp
  qed
qed

lemma strings_Trim_units:
  "strings_Trim (concat (map unit_utf8 us)) 0 = concat (map unit_utf8 (trim_units us))"
proof -
  let ?P = "\<lambda>x :: byte. x = 0"
  let ?Q = "\<lambda>u :: uint16. u = 0"
  let ?g = "\<lambda>u. rev (unit_utf8 u)"
  have l: "dropWhile ?P (concat (map unit_utf8 vs)) = concat (map unit_utf8 (dropWhile ?Q vs))" for vs
    by (rule dropWhile_concat_units) (simp_all add: unit_utf8_zero unit_utf8_ends)
  have r: "dropWhile ?P (concat (map ?g vs)) = concat (map ?g (dropWhile ?Q vs))" for vs
    by (rule dropWhile_concat_units) (simp_all add: unit_utf8_zero unit_utf8_ends hd_rev)
  have rc: "rev (concat (map unit_utf8 vs)) = concat (map ?g (rev vs))" for vs
    by (simp add: rev_concat rev_map comp_def)
  have cr: "rev (concat (map ?g vs)) = concat (map unit_utf8 (rev vs))" for vs
    by (simp add: rev_concat rev_map comp_def)
  show ?thesis
    unfolding strings_Trim_def trim_units_def l rc r cr ..
qed

lemma set_trim_units: "x \<in> set (trim_units us) \<Longrightarrow> x \<in> set us"
  by (auto simp: trim_units_def dest!: set_dropWhileD)

text \<open>
  For an even-length input none of whose 16-bit units is a surrogate, \<open>decodeLabel\<close>
  followed by re-encoding to UTF-16LE gives the input with the NUL units of both ends
  removed; when the first unit is not NUL, that is the input without its trailing NUL
  padding.
\<close>

lemma decodeLabel_round_trip:
  assumes "even (length b)" and "\<forall>u\<in>set (code_units b). \<not> is_surrogate u"
  shows "\<exists>s. decodeLabel b = Inr s \<and>
             spec_reencode s = le_bytes (trim_units (code_units b)) \<and>
             (code_units b = [] \<or> hd (code_units b) \<noteq> 0 \<longrightarrow>
                spec_reencode s = spec_nonNUL_prefix b)"
proof -
  let ?us = "code_units b"
  let ?s = "concat (map unit_utf8 (trim_units ?us))"
  have d: "decodeLabel b = Inr ?s"
    using decodeLabel_even [OF assms(1)] by (simp add: strings_Trim_units)
  have ns: "\<forall>u\<in>set (trim_units ?us). \<not> is_surrogate u"
    using assms(2) set_trim_units [of _ ?us] by blast
  have "spec_utf16_encode (spec_utf8_runes ?s) = trim_units ?us"
    by (simp only: spec_utf8_runes_units [OF ns] spec_utf16_encode_units [OF ns])
  then have re: "spec_reencode ?s = le_bytes (trim_units ?us)" by (simp add: spec_reencode_def)
  have "le_bytes (trim_units ?us) = spec_nonNUL_prefix b" if "?us = [] \<or> hd ?us \<noteq> 0"
  proof -
    from that have "dropWhile (\<lambda>u. u = 0) ?us = ?us" by (cases ?us) auto
    then have "trim_units ?us = rev (dropWhile (\<lambda>u. u = 0) (rev ?us))"
      by (simp add: trim_units_def)
    then show ?thesis by (simp only: spec_nonNUL_prefix_def)
  qed
  then have "?us = [] \<or> hd ?us \<noteq> 0 \<longrightarrow> spec_reencode ?s = spec_nonNUL_prefix b"
    using re by (simp only:) blast
  with d re show ?thesis by blast
qed

lemma decodeLabel_round_trip_example:
  "even (length [0x53, 0, 0xE9, 0, 0x20, 0xAC, 0, 0, 0, 0 :: byte]) \<and>
   decodeLabel [0x53, 0, 0xE9, 0, 0x20, 0xAC, 0, 0, 0, 0] =
     Inr [0x53, 0xC3, 0xA9, 0xEA, 0xB0, 0xA0] \<and>
   spec_reencode [0x53, 0xC3, 0xA9, 0xEA, 0xB0, 0xA0] = [0x53, 0, 0xE9, 0, 0x20, 0xAC] \<and>
   spec_nonNUL_prefix [0x53, 0, 0xE9, 0, 0x20, 0xAC, 0, 0, 0, 0] = [0x53, 0, 0xE9, 0, 0x20, 0xAC]"
proof -
  let ?b = "[0x53, 0, 0xE9, 0, 0x20, 0xAC, 0, 0, 0, 0] :: byte list"
  have e: "even (length ?b)" by simp
  have n: "\<forall>u\<in>set (code_units ?b). \<not> is_surrogate u" by code_simp
  have h: "code_units ?b = [] \<or> hd (code_units ?b) \<noteq> 0" by code_simp
  have d: "decodeLabel ?b = Inr [0x53, 0xC3, 0xA9, 0xEA, 0xB0, 0xA0]" by code_simp
  have p: "spec_nonNUL_prefix ?b = [0x53, 0, 0xE9, 0, 0x20, 0xAC]" by code_simp
  from decodeLabel_round_trip [OF e n] obtain s where
    s: "decodeLabel ?b = Inr s"
       "code_units ?b = [] \<or> hd (code_units ?b) \<noteq> 0 \<longrightarrow> spec_reencode s = spec_nonNUL_prefix ?b"
    by blast
  from s(1) d have "s = [0x53, 0xC3, 0xA9, 0xEA, 0xB0, 0xA0]" by simp
  with s(2) h p have "spec_reencode [0x53, 0xC3, 0xA9, 0xEA, 0xB0, 0xA0] = [0x53, 0, 0xE9, 0, 0x20, 0xAC]"
    by simp
  with e d p show ?thesis by blast
qed

lemma is_surrogate_zero: "\<not> is_surrogate 0"
  by (simp add: is_surrogate_def surr1_def)

lemma trim_units_padded:
  assumes "0 \<notin> set p"
  shows "trim_units (p @ replicate k 0) = p"
    and "rev (dropWhile (\<lambda>u. u = 0) (rev (p @ replicate k 0))) = p"
proof -
  let ?Q = "\<lambda>u :: uint16. u = 0"
  have z: "dropWhile ?Q (replicate k 0 @ xs) = dropWhile ?Q xs" for xs
    by (induction k) simp_all
  have r: "dropWhile ?Q (rev p) = rev p"
  proof (cases "rev p")
    case Nil
    then show ?thesis by simp
  next
    case (Cons a q)
    then have "a \<in> set p" by (metis list.set_intros(1) set_rev)
    with assms have "a \<noteq> 0" by auto
    with Cons show ?thesis by simp
  qed
  show b: "rev (dropWhile ?Q (rev (p @ replicate k 0))) = p"
    by (simp add: z r)
  have f: "dropWhile ?Q (p @ replicate k 0) = (if p = [] then [] else p @ replicate k 0)"
  proof (cases p)
    case Nil
    then show ?thesis using z [of "[]"] by simp
  next
    case (Cons a q)
    with assms show ?thesis by auto
  qed
  show "trim_units (p @ replicate k 0) = p"
  proof (cases "p = []")
    case True
    then show ?thesis by (simp add: trim_units_def f)
  next
    case False
    then show ?thesis unfolding trim_units_def f using b by simp
  qed
qed

text \<open>
  On the inputs the round-trip property speaks of without surrogates, it holds: if the
  units of an even-length input are a prefix free of NUL and of surrogates followed by
  NUL padding, then \<open>decodeLabel\<close> followed by re-encoding to UTF-16LE gives back exactly
  that prefix.
\<close>

lemma decodeLabel_round_trip_padded:
  assumes "even (length b)" and "code_units b = p @ replicate k 0" and "0 \<notin> set p"
    and "\<forall>u\<in>set p. \<not> is_surrogate u"
  shows "\<exists>s. decodeLabel b = Inr s \<and> spec_reencode s = le_bytes p \<and>
             spec_nonNUL_prefix b = le_bytes p"
proof -
  have ns: "\<forall>u\<in>set (code_units b). \<not> is_surrogate u"
    using assms(2,4) is_surrogate_zero by auto
  from decodeLabel_round_trip [OF assms(1) ns] obtain s where
    s: "decodeLabel b = Inr s" "spec_reencode s = le_bytes (trim_units (code_units b))" by blast
  have "spec_nonNUL_prefix b = le_bytes p"
    by (simp only: spec_nonNUL_prefix_def assms(2) trim_units_padded(2) [OF assms(3)])
  with s show ?thesis by (simp add: assms(2) trim_units_padded(1) [OF assms(3)])
qed

text \<open>
  Claim C2.  The claim says that an even-length sequence of valid UTF-16LE units
  followed by NUL padding comes back from \<open>decodeLabel\<close> and re-encoding.  The six bytes
  \<open>3D D8 00 DE 00 00\<close> are the valid surrogate pair \<open>D83D DE00\<close> followed by one NUL unit.
  \<open>decodeLabel\<close> decodes each half of the pair alone and returns two replacement
  characters, whose UTF-16LE form is \<open>FD FF FD FF\<close>, not the original \<open>3D D8 00 DE\<close>.
\<close>

theorem decodeLabel_round_trip_breaks_surrogate_pair:
  "even (length [0x3D, 0xD8, 0x00, 0xDE, 0, 0 :: byte]) \<and>
   code_units [0x3D, 0xD8, 0x00, 0xDE, 0, 0] = [0xD83D, 0xDE00] @ replicate 1 0 \<and>
   spec_valid_utf16 [0xD83D, 0xDE00] \<and>
   decodeLabel [0x3D, 0xD8, 0x00, 0xDE, 0, 0] = Inr [0xEF, 0xBF, 0xBD, 0xEF, 0xBF, 0xBD] \<and>
   spec_reencode [0xEF, 0xBF, 0xBD, 0xEF, 0xBF, 0xBD] = [0xFD, 0xFF, 0xFD, 0xFF] \<and>
   spec_nonNUL_prefix [0x3D, 0xD8, 0x00, 0xDE, 0, 0] = [0x3D, 0xD8, 0x00, 0xDE]"
  by code_simp

end
